theory Spec2Isabelle
  imports Main
begin

section \<open>JavaScript strings and numbers used by the release pipeline\<close>

text \<open>
  A JavaScript string is modelled as the UTF-8 byte sequence of its text (\<open>string\<close>).
  The separators the code splits and joins on (\<open>.\<close>, line feed) are ASCII, so splitting,
  joining and prefix tests on bytes agree with the same operations on the text.
\<close>

definition startsWith :: "string \<Rightarrow> string \<Rightarrow> bool" where
  "startsWith s p = (take (length p) s = p)"

definition endsWith :: "string \<Rightarrow> string \<Rightarrow> bool" where
  "endsWith s p = (length p \<le> length s \<and> drop (length s - length p) s = p)"

text \<open>\<open>s.split(c)\<close> for a one-character separator: never empty, \<open>''''\<close> gives \<open>['''']\<close>.\<close>

fun split_on :: "char \<Rightarrow> string \<Rightarrow> string list" where
  "split_on c [] = [[]]"
| "split_on c (x # xs) =
     (if x = c then [] # split_on c xs
      else (x # hd (split_on c xs)) # tl (split_on c xs))"

text \<open>\<open>xs.join(sep)\<close>.\<close>

fun join_with :: "string \<Rightarrow> string list \<Rightarrow> string" where
  "join_with sep [] = []"
| "join_with sep [x] = x"
| "join_with sep (x # y # ys) = x @ sep @ join_with sep (y # ys)"

text \<open>
  White space as \<open>String.prototype.trim\<close> and \<open>parseInt\<close> see it: the code points
  U+0009 to U+000D, U+0020, U+00A0, U+1680, U+2000 to U+200A, U+2028, U+2029, U+202F,
  U+205F, U+3000 and U+FEFF, here in their UTF-8 encodings.
\<close>

definition ws1 :: "char list" where
  "ws1 = [CHR 0x09, CHR 0x0A, CHR 0x0B, CHR 0x0C, CHR 0x0D, CHR 0x20]"

definition ws2 :: "string list" where
  "ws2 = [[CHR 0xC2, CHR 0xA0]]"

definition ws3 :: "string list" where
  "ws3 = [[CHR 0xE1, CHR 0x9A, CHR 0x80],
          [CHR 0xE2, CHR 0x80, CHR 0x80], [CHR 0xE2, CHR 0x80, CHR 0x81],
          [CHR 0xE2, CHR 0x80, CHR 0x82], [CHR 0xE2, CHR 0x80, CHR 0x83],
          [CHR 0xE2, CHR 0x80, CHR 0x84], [CHR 0xE2, CHR 0x80, CHR 0x85],
          [CHR 0xE2, CHR 0x80, CHR 0x86], [CHR 0xE2, CHR 0x80, CHR 0x87],
          [CHR 0xE2, CHR 0x80, CHR 0x88], [CHR 0xE2, CHR 0x80, CHR 0x89],
          [CHR 0xE2, CHR 0x80, CHR 0x8A], [CHR 0xE2, CHR 0x80, CHR 0xA8],
          [CHR 0xE2, CHR 0x80, CHR 0xA9], [CHR 0xE2, CHR 0x80, CHR 0xAF],
          [CHR 0xE2, CHR 0x81, CHR 0x9F], [CHR 0xE3, CHR 0x80, CHR 0x80],
          [CHR 0xEF, CHR 0xBB, CHR 0xBF]]"

text \<open>The first bytes of these encodings.\<close>

definition ws_leads :: "char list" where
  "ws_leads = [CHR 0x09, CHR 0x0A, CHR 0x0B, CHR 0x0C, CHR 0x0D, CHR 0x20,
               CHR 0xC2, CHR 0xE1, CHR 0xE2, CHR 0xE3, CHR 0xEF]"

text \<open>The number of bytes of the white-space code point a string starts with, or 0.\<close>

definition ws_head :: "string \<Rightarrow> nat" where
  "ws_head s =
     (case s of
        [] \<Rightarrow> 0
      | c # _ \<Rightarrow>
          if c \<in> set ws1 then 1
          else if length s \<ge> 2 \<and> take 2 s \<in> set ws2 then 2
          else if length s \<ge> 3 \<and> take 3 s \<in> set ws3 then 3
          else 0)"

text \<open>The number of bytes of the white-space code point a string ends with, or 0.\<close>

definition ws_last :: "string \<Rightarrow> nat" where
  "ws_last s =
     (let n = length s in
      if n = 0 then 0
      else if last s \<in> set ws1 then 1
      else if n \<ge> 2 \<and> drop (n - 2) s \<in> set ws2 then 2
      else if n \<ge> 3 \<and> drop (n - 3) s \<in> set ws3 then 3
      else 0)"

lemma ws_head_le: "ws_head s \<le> length s"
  by (cases s) (auto simp: ws_head_def)

lemma ws_last_le: "ws_last s \<le> length s"
  by (cases s) (auto simp: ws_last_def Let_def)

function trimStart :: "string \<Rightarrow> string" where
  "trimStart s = (if ws_head s = 0 then s else trimStart (drop (ws_head s) s))"
  by pat_completeness auto
termination
proof (relation "measure length")
  show "wf (measure length)" by simp
next
  fix s :: string
  assume "ws_head s \<noteq> 0"
  moreover have "ws_head s \<le> length s" by (rule ws_head_le)
  ultimately show "(drop (ws_head s) s, s) \<in> measure length" by simp
qed

function trimEnd :: "string \<Rightarrow> string" where
  "trimEnd s = (if ws_last s = 0 then s else trimEnd (take (length s - ws_last s) s))"
  by pat_completeness auto
termination
proof (relation "measure length")
  show "wf (measure length)" by simp
next
  fix s :: string
  assume "ws_last s \<noteq> 0"
  moreover have "ws_last s \<le> length s" by (rule ws_last_le)
  ultimately show "(take (length s - ws_last s) s, s) \<in> measure length" by simp
qed

declare trimStart.simps [simp del]
declare trimEnd.simps [simp del]

definition trim :: "string \<Rightarrow> string" where
  "trim s = trimEnd (trimStart s)"

text \<open>
  \<open>s.length\<close> counts UTF-16 code units: one for each code point, two for a code point
  above U+FFFF (a four-byte UTF-8 sequence, whose first byte is at least \<open>0xF0\<close>).
\<close>

definition js_length :: "string \<Rightarrow> nat" where
  "js_length s =
     length (filter (\<lambda>c. \<not> (0x80 \<le> (of_char c :: nat) \<and> (of_char c :: nat) < 0xC0)) s)
     + length (filter (\<lambda>c. 0xF0 \<le> (of_char c :: nat)) s)"

definition is_digit :: "char \<Rightarrow> bool" where
  "is_digit c = (c \<in> set ''0123456789'')"

text \<open>The value of a decimal digit: its code minus the code of \<open>0\<close>.\<close>

definition digit_val :: "char \<Rightarrow> nat" where
  "digit_val c = of_char c - of_char (CHR ''0'')"

definition dec_value :: "string \<Rightarrow> nat" where
  "dec_value z = foldl (\<lambda>a c. 10 * a + digit_val c) 0 z"

definition digit_char :: "nat \<Rightarrow> char" where
  "digit_char d = ''0123456789'' ! d"

fun nat_to_string :: "nat \<Rightarrow> string" where
  "nat_to_string n =
     (if n < 10 then [digit_char n] else nat_to_string (n div 10) @ [digit_char (n mod 10)])"

declare nat_to_string.simps [simp del]

subsection \<open>Numbers\<close>

text \<open>
  A JavaScript number is an IEEE double. The numbers of this program hold integers, so a
  finite number is modelled by the integer it holds (\<open>Fin\<close>), next to the two infinities
  and \<open>NaN\<close>. Minus zero is \<open>Fin 0\<close>: it is not below zero, prints as \<open>0\<close> and adds like
  zero, so nothing here tells the two apart. Every operation gives the double nearest to the
  exact result, ties going to the even significand.
\<close>

datatype number = NaN | PosInfinity | NegInfinity | Fin int

fun bit_length :: "nat \<Rightarrow> nat" where
  "bit_length n = (if n = 0 then 0 else Suc (bit_length (n div 2)))"

declare bit_length.simps [simp del]

text \<open>
  The double nearest to a natural number, as a natural number: up to \<open>2 ^ 53\<close> every
  integer is a double; above, the 53 leading bits are kept and the rest is rounded, half to
  even. A result of \<open>2 ^ 1024\<close> or more stands for an overflow.
\<close>

definition round_nat :: "nat \<Rightarrow> nat" where
  "round_nat a =
     (if a \<le> 2 ^ 53 then a
      else
        let e = bit_length a - 53; q = a div 2 ^ e; r = a mod 2 ^ e; h = 2 ^ (e - 1)
        in if r > h \<or> (r = h \<and> odd q) then (q + 1) * 2 ^ e else q * 2 ^ e)"

definition to_double :: "int \<Rightarrow> number" where
  "to_double i =
     (let r = round_nat (nat \<bar>i\<bar>) in
      if r \<ge> 2 ^ 1024 then (if i < 0 then NegInfinity else PosInfinity)
      else Fin (if i < 0 then - int r else int r))"

fun js_neg :: "number \<Rightarrow> number" where
  "js_neg NaN = NaN"
| "js_neg PosInfinity = NegInfinity"
| "js_neg NegInfinity = PosInfinity"
| "js_neg (Fin a) = Fin (- a)"

text \<open>\<open>a + b\<close>.\<close>

fun js_add :: "number \<Rightarrow> number \<Rightarrow> number" where
  "js_add NaN b = NaN"
| "js_add a NaN = NaN"
| "js_add PosInfinity NegInfinity = NaN"
| "js_add NegInfinity PosInfinity = NaN"
| "js_add PosInfinity b = PosInfinity"
| "js_add a PosInfinity = PosInfinity"
| "js_add NegInfinity b = NegInfinity"
| "js_add a NegInfinity = NegInfinity"
| "js_add (Fin a) (Fin b) = to_double (a + b)"

text \<open>\<open>a - b\<close>.\<close>

definition js_sub :: "number \<Rightarrow> number \<Rightarrow> number" where
  "js_sub a b = js_add a (js_neg b)"

text \<open>\<open>a < b\<close> and \<open>a > b\<close>: false when either side is \<open>NaN\<close>.\<close>

fun js_lt :: "number \<Rightarrow> number \<Rightarrow> bool" where
  "js_lt NaN b = False"
| "js_lt a NaN = False"
| "js_lt PosInfinity b = False"
| "js_lt a PosInfinity = True"
| "js_lt a NegInfinity = False"
| "js_lt NegInfinity b = True"
| "js_lt (Fin a) (Fin b) = (a < b)"

definition js_gt :: "number \<Rightarrow> number \<Rightarrow> bool" where
  "js_gt a b = js_lt b a"

text \<open>\<open>a !== b\<close>: \<open>NaN\<close> differs from everything.\<close>

definition js_neq :: "number \<Rightarrow> number \<Rightarrow> bool" where
  "js_neq a b = (a = NaN \<or> b = NaN \<or> a \<noteq> b)"

definition isNaN :: "number \<Rightarrow> bool" where
  "isNaN a = (a = NaN)"

text \<open>
  \<open>parseInt(str, 10)\<close>: skip leading white space, read an optional sign, then the longest
  run of decimal digits; without a digit there the result is \<open>NaN\<close>. What follows the
  digits is ignored. The value of the digits is rounded to a double (for runs of more than 20
  digits the standard lets an engine be less exact; the exact conversion is modelled).
\<close>

definition parseInt10 :: "string \<Rightarrow> number" where
  "parseInt10 str =
     (let s = trimStart str;
          sign = (case s of c # _ \<Rightarrow> if c = CHR ''-'' then - 1 else 1 | [] \<Rightarrow> 1);
          s' = (case s of c # r \<Rightarrow> if c = CHR ''+'' \<or> c = CHR ''-'' then r else s | [] \<Rightarrow> s);
          z = takeWhile is_digit s'
      in if z = [] then NaN else to_double (sign * int (dec_value z)))"

text \<open>
  The string of a number, as a template literal renders it: the shortest run of decimal
  digits that reads back as the same double (of several, the one nearest to it; of two
  equally near, the even one), written out in full up to 21 digits and in exponent form
  beyond. \<open>digits_for a k\<close> is the value with \<open>k\<close> digits that does so, if there is one.
\<close>

definition decimal_digits :: "nat \<Rightarrow> nat" where
  "decimal_digits a = length (nat_to_string a)"

definition digits_for :: "nat \<Rightarrow> nat \<Rightarrow> nat option" where
  "digits_for a k =
     (let unit = 10 ^ (decimal_digits a - k);
          lo = (a div unit) * unit;
          hi = lo + unit;
          oklo = (round_nat lo = a);
          okhi = (round_nat hi = a)
      in if oklo \<and> okhi then
           (if a - lo < hi - a then Some lo
            else if hi - a < a - lo then Some hi
            else if even (a div unit) then Some lo else Some hi)
         else if oklo then Some lo
         else if okhi then Some hi
         else None)"

definition shortest :: "nat \<Rightarrow> nat" where
  "shortest a =
     (case List.map_filter (digits_for a) [1..<Suc (decimal_digits a)] of
        v # _ \<Rightarrow> v
      | [] \<Rightarrow> a)"

definition strip_zeros :: "string \<Rightarrow> string" where
  "strip_zeros s = rev (dropWhile (\<lambda>c. c = CHR ''0'') (rev s))"

text \<open>
  A non-negative integer-valued double. Up to \<open>2 ^ 53\<close> the shortest digits are the digits
  of the integer itself.
\<close>

definition render_nat :: "nat \<Rightarrow> string" where
  "render_nat a =
     (if a \<le> 2 ^ 53 then nat_to_string a
      else
        let s = nat_to_string (shortest a); n = length s; sig = strip_zeros s
        in if n \<le> 21 then s
           else take 1 sig @ (if length sig > 1 then CHR ''.'' # drop 1 sig else [])
                  @ ''e+'' @ nat_to_string (n - 1))"

definition number_to_string :: "number \<Rightarrow> string" where
  "number_to_string x =
     (case x of
        NaN \<Rightarrow> ''NaN''
      | PosInfinity \<Rightarrow> ''Infinity''
      | NegInfinity \<Rightarrow> ''-Infinity''
      | Fin n \<Rightarrow> if n < 0 then CHR ''-'' # render_nat (nat (- n)) else render_nat (nat n))"

section \<open>Changesets\<close>

datatype ChangeType = Major | Minor | Patch

record Changeset =
  cs_id :: string
  type :: ChangeType
  summary :: string
  packages :: "(string \<times> ChangeType) list option"
  author :: "string option"
  pr :: "int option"
  createdAt :: string

section \<open>Version calculation (VersionManager)\<close>

datatype version_error =
    InvalidVersionFormat string
  | InvalidVersionNumber string

text \<open>\<open>{ major, minor, patch }\<close>: the shape of a parsed version and of the counts by type.\<close>

record 'a by_type =
  major :: 'a
  minor :: 'a
  patch :: 'a

type_synonym numbers3 = "number by_type"

record VersionInfo =
  current :: string
  "next" :: string
  hasChanges :: bool
  changesByType :: numbers3

definition parse_part :: "string \<Rightarrow> version_error + number" where
  "parse_part part =
     (let num = parseInt10 part in
      if isNaN num \<or> js_lt num (Fin 0) then Inl (InvalidVersionNumber part) else Inr num)"

definition remove_v_prefix :: "string \<Rightarrow> string" where
  "remove_v_prefix version =
     (case version of c # r \<Rightarrow> if c = CHR ''v'' then r else version | [] \<Rightarrow> [])"

definition parseVersion :: "string \<Rightarrow> version_error + numbers3" where
  "parseVersion version =
     (let cleanVersion = remove_v_prefix version;
          parts = split_on (CHR ''.'') cleanVersion
      in case parts of
           [p1, p2, p3] \<Rightarrow>
             (case parse_part p1 of
                Inl e \<Rightarrow> Inl e
              | Inr a \<Rightarrow>
                 (case parse_part p2 of
                    Inl e \<Rightarrow> Inl e
                  | Inr b \<Rightarrow>
                     (case parse_part p3 of
                        Inl e \<Rightarrow> Inl e
                      | Inr c \<Rightarrow> Inr \<lparr>major = a, minor = b, patch = c\<rparr>)))
         | _ \<Rightarrow> Inl (InvalidVersionFormat version))"


definition count_change :: "numbers3 \<Rightarrow> Changeset \<Rightarrow> numbers3" where
  "count_change acc changeset =
     (case type changeset of
        Major \<Rightarrow> acc\<lparr>major := js_add (major acc) (Fin 1)\<rparr>
      | Minor \<Rightarrow> acc\<lparr>minor := js_add (minor acc) (Fin 1)\<rparr>
      | Patch \<Rightarrow> acc\<lparr>patch := js_add (patch acc) (Fin 1)\<rparr>)"

definition bump :: "numbers3 \<Rightarrow> numbers3 \<Rightarrow> numbers3" where
  "bump parsed counts =
     (if js_gt (major counts) (Fin 0)
      then \<lparr>major = js_add (major parsed) (Fin 1), minor = Fin 0, patch = Fin 0\<rparr>
      else if js_gt (minor counts) (Fin 0)
      then \<lparr>major = major parsed, minor = js_add (minor parsed) (Fin 1), patch = Fin 0\<rparr>
      else if js_gt (patch counts) (Fin 0)
      then \<lparr>major = major parsed, minor = minor parsed, patch = js_add (patch parsed) (Fin 1)\<rparr>
      else parsed)"

definition version_string :: "numbers3 \<Rightarrow> string" where
  "version_string v =
     number_to_string (major v) @ ''.'' @ number_to_string (minor v) @ ''.''
       @ number_to_string (patch v)"

definition calculateNextVersion :: "string \<Rightarrow> Changeset list \<Rightarrow> version_error + VersionInfo" where
  "calculateNextVersion currentVersion changesets =
     (case parseVersion currentVersion of
        Inl e \<Rightarrow> Inl e
      | Inr parsed \<Rightarrow>
          if length changesets = 0 then
            Inr \<lparr>current = currentVersion, next = currentVersion, hasChanges = False,
                 changesByType = \<lparr>major = Fin 0, minor = Fin 0, patch = Fin 0\<rparr>\<rparr>
          else
            let counts = foldl count_change \<lparr>major = Fin 0, minor = Fin 0, patch = Fin 0\<rparr> changesets
            in Inr \<lparr>current = currentVersion, next = version_string (bump parsed counts),
                    hasChanges = True, changesByType = counts\<rparr>)"

definition compareVersions :: "string \<Rightarrow> string \<Rightarrow> version_error + number" where
  "compareVersions v1 v2 =
     (case parseVersion v1 of
        Inl e \<Rightarrow> Inl e
      | Inr parsed1 \<Rightarrow>
         (case parseVersion v2 of
            Inl e \<Rightarrow> Inl e
          | Inr parsed2 \<Rightarrow>
              if js_neq (major parsed1) (major parsed2)
              then Inr (js_sub (major parsed1) (major parsed2))
              else if js_neq (minor parsed1) (minor parsed2)
              then Inr (js_sub (minor parsed1) (minor parsed2))
              else Inr (js_sub (patch parsed1) (patch parsed2))))"

section \<open>Changelog (ChangelogManager)\<close>

record ChangelogEntry =
  entry_version :: string
  entry_date :: string
  changes :: "Changeset list by_type"

text \<open>The date is \<open>new Date().toISOString().split('T')[0]\<close>: the clock is a parameter.\<close>

definition createChangelogEntry :: "string \<Rightarrow> Changeset list \<Rightarrow> string \<Rightarrow> ChangelogEntry" where
  "createChangelogEntry version changesets today =
     \<lparr>entry_version = version, entry_date = today,
      changes = \<lparr>major = filter (\<lambda>cs. type cs = Major) changesets,
                 minor = filter (\<lambda>cs. type cs = Minor) changesets,
                 patch = filter (\<lambda>cs. type cs = Patch) changesets\<rparr>\<rparr>"

definition newline :: char where
  "newline = CHR 0x0A"

text \<open>One block of \<open>generateChangelogSection\<close>: nothing for an empty list.\<close>

definition change_lines :: "string \<Rightarrow> Changeset list \<Rightarrow> string list" where
  "change_lines heading changesets =
     (if length changesets > 0
      then [heading, []] @ map (\<lambda>changeset. ''- '' @ summary changeset) changesets @ [[]]
      else [])"

definition breaking_heading :: string where
  "breaking_heading = ''### '' @ [CHR 0xF0, CHR 0x9F, CHR 0x92, CHR 0xA5] @ '' Breaking Changes''"

definition features_heading :: string where
  "features_heading = ''### '' @ [CHR 0xF0, CHR 0x9F, CHR 0x9A, CHR 0x80] @ '' Features''"

definition fixes_heading :: string where
  "fixes_heading = ''### '' @ [CHR 0xF0, CHR 0x9F, CHR 0x90, CHR 0x9B] @ '' Bug Fixes''"

definition section_lines :: "ChangelogEntry \<Rightarrow> string list" where
  "section_lines entry =
     [''## v'' @ entry_version entry @ '' ('' @ entry_date entry @ '')'', []]
     @ change_lines breaking_heading (major (changes entry))
     @ change_lines features_heading (minor (changes entry))
     @ change_lines fixes_heading (patch (changes entry))"

definition generateChangelogSection :: "ChangelogEntry \<Rightarrow> string" where
  "generateChangelogSection entry = join_with [newline] (section_lines entry)"

text \<open>The two description lines of the initial changelog, and the prefixes the insertion skips.\<close>

definition preamble_prefix1 :: string where
  "preamble_prefix1 =
     [CHR 0xEB, CHR 0xAA, CHR 0xA8, CHR 0xEB, CHR 0x93, CHR 0xA0, CHR 0x20, CHR 0xEC,
      CHR 0xA3, CHR 0xBC, CHR 0xEB, CHR 0xAA, CHR 0xA9, CHR 0xED, CHR 0x95, CHR 0xA0]"

definition preamble_prefix2 :: string where
  "preamble_prefix2 =
     [CHR 0xEC, CHR 0x9D, CHR 0xB4, CHR 0x20, CHR 0xED, CHR 0x94, CHR 0x84, CHR 0xEB,
      CHR 0xA1, CHR 0x9C, CHR 0xEC, CHR 0xA0, CHR 0x9D, CHR 0xED, CHR 0x8A, CHR 0xB8,
      CHR 0xEB, CHR 0x8A, CHR 0x94]"

definition preamble_line1 :: string where
  "preamble_line1 = preamble_prefix1 @
     [CHR 0x20, CHR 0xEB, CHR 0xA7, CHR 0x8C, CHR 0xED, CHR 0x95, CHR 0x9C, CHR 0x20,
      CHR 0xEB, CHR 0xB3, CHR 0x80, CHR 0xEA, CHR 0xB2, CHR 0xBD, CHR 0xEC, CHR 0x82,
      CHR 0xAC, CHR 0xED, CHR 0x95, CHR 0xAD, CHR 0xEB, CHR 0x93, CHR 0xA4, CHR 0xEC,
      CHR 0x9D, CHR 0xB4, CHR 0x20, CHR 0xEC, CHR 0x9D, CHR 0xB4, CHR 0x20, CHR 0xED,
      CHR 0x8C, CHR 0x8C, CHR 0xEC, CHR 0x9D, CHR 0xBC, CHR 0xEC, CHR 0x97, CHR 0x90,
      CHR 0x20, CHR 0xEA, CHR 0xB8, CHR 0xB0, CHR 0xEB, CHR 0xA1, CHR 0x9D, CHR 0xEB,
      CHR 0x90, CHR 0xA9, CHR 0xEB, CHR 0x8B, CHR 0x88, CHR 0xEB, CHR 0x8B, CHR 0xA4,
      CHR ''.'']"

definition preamble_line2 :: string where
  "preamble_line2 = preamble_prefix2 @ '' [Semantic Versioning](https://semver.org/lang/ko/)''
     @ [CHR 0xEC, CHR 0x9D, CHR 0x84, CHR 0x20, CHR 0xEB, CHR 0x94, CHR 0xB0, CHR 0xEB,
        CHR 0xA6, CHR 0x85, CHR 0xEB, CHR 0x8B, CHR 0x88, CHR 0xEB, CHR 0x8B, CHR 0xA4,
        CHR ''.'']"

definition createInitialChangelog :: string where
  "createInitialChangelog =
     join_with [newline] [''# Changelog'', [], preamble_line1, [], preamble_line2, [], []]"

definition is_title :: "string \<Rightarrow> bool" where
  "is_title line = startsWith line ''# Changelog''"

text \<open>The lines the inner loop steps over: blank ones and the two description lines.\<close>

definition is_preamble :: "string \<Rightarrow> bool" where
  "is_preamble line =
     (trim line = [] \<or> startsWith line preamble_prefix1 \<or> startsWith line preamble_prefix2)"

function skip_preamble :: "string list \<Rightarrow> nat \<Rightarrow> nat" where
  "skip_preamble lines insertIndex =
     (if insertIndex < length lines \<and> is_preamble (lines ! insertIndex)
      then skip_preamble lines (insertIndex + 1) else insertIndex)"
  by pat_completeness auto
termination
  by (relation "measure (\<lambda>(lines, insertIndex). length lines - insertIndex)") auto

text \<open>The outer loop from index \<open>i\<close>; \<open>None\<close> is the insert index \<open>-1\<close>.\<close>

function find_insert_index :: "string list \<Rightarrow> nat \<Rightarrow> nat option" where
  "find_insert_index lines i =
     (if i < length lines
      then (if is_title (lines ! i) then Some (skip_preamble lines (i + 1))
            else find_insert_index lines (i + 1))
      else None)"
  by pat_completeness auto
termination
  by (relation "measure (\<lambda>(lines, i). length lines - i)") auto

declare skip_preamble.simps [simp del]
declare find_insert_index.simps [simp del]

definition insertNewEntry :: "string \<Rightarrow> string \<Rightarrow> string" where
  "insertNewEntry existingContent newEntry =
     (let lines = split_on newline existingContent in
      case find_insert_index lines 0 of
        None \<Rightarrow> newEntry @ [newline] @ existingContent
      | Some insertIndex \<Rightarrow>
          join_with [newline] (take insertIndex lines @ [[], newEntry] @ drop insertIndex lines))"

text \<open>
  \<open>addEntry\<close> on the changelog file (\<open>None\<close>: the file cannot be read, and the initial
  changelog is used); the result is the content written back.
\<close>

definition addEntry :: "string \<Rightarrow> Changeset list \<Rightarrow> string \<Rightarrow> string option \<Rightarrow> string" where
  "addEntry version changesets today file =
     (let entry = createChangelogEntry version changesets today;
          newContent = generateChangelogSection entry;
          existingContent = (case file of Some content \<Rightarrow> content | None \<Rightarrow> createInitialChangelog)
      in insertNewEntry existingContent newContent)"

text \<open>A document has a title line when some line starts with \<open># Changelog\<close>.\<close>

definition has_title :: "string \<Rightarrow> bool" where
  "has_title doc = list_ex is_title (split_on newline doc)"

section \<open>The changeset store (ChangesetManager)\<close>

text \<open>
  What \<open>JSON.parse\<close> gives for a file. An object is the list of its own properties
  (distinct keys, in the order of the text). Numbers are kept as integer-valued doubles: the
  store never computes with them.
\<close>

datatype json =
    JNull
  | JBool bool
  | JNum number
  | JStr string
  | JArr "json list"
  | JObj "(string \<times> json) list"

text \<open>
  The store directory: the entries \<open>readdir\<close> lists, in its order, each with the value
  its content parses to (\<open>None\<close>: the entry cannot be read or is not JSON). A directory
  that does not exist yet is the empty list, which is what \<open>ensureDir\<close> makes of it.
\<close>

type_synonym store = "(string \<times> json option) list"

datatype store_error =
    ENOENT string
  | InvalidJson string
  | NotAnObject
  | MissingField string
  | InvalidId
  | InvalidType
  | InvalidSummary
  | CreatedAtNotString
  | InvalidDate
  | FilenameMismatch string string
  | InvalidChangeType string
  | EmptySummary
  | SummaryTooShort
  | SummaryTooLong
  | SummaryLineBreak
  | IdGenerationExhausted

definition file_names :: "store \<Rightarrow> string list" where
  "file_names s = map fst s"

text \<open>\<open>fs.access\<close> succeeds.\<close>

definition file_exists :: "store \<Rightarrow> string \<Rightarrow> bool" where
  "file_exists s f = (f \<in> set (file_names s))"

definition readJsonFile :: "store \<Rightarrow> string \<Rightarrow> store_error + json" where
  "readJsonFile s f =
     (case map_of s f of
        None \<Rightarrow> Inl (ENOENT f)
      | Some None \<Rightarrow> Inl (InvalidJson f)
      | Some (Some j) \<Rightarrow> Inr j)"

text \<open>\<open>writeJsonFile\<close>: replaces the content of an existing file, else adds the file.\<close>

definition writeJsonFile :: "string \<Rightarrow> json \<Rightarrow> store \<Rightarrow> store" where
  "writeJsonFile f d s =
     (if file_exists s f then map (\<lambda>(n, c). if n = f then (n, Some d) else (n, c)) s
      else s @ [(f, Some d)])"

text \<open>\<open>fs.unlink\<close>: fails on a missing file.\<close>

definition unlink :: "string \<Rightarrow> store \<Rightarrow> store_error + store" where
  "unlink f s = (if file_exists s f then Inr (filter (\<lambda>(n, c). n \<noteq> f) s) else Inl (ENOENT f))"

definition config_json :: json where
  "config_json = JObj [(''changelog'', JObj [(''repo'', JStr []), (''template'', JStr ''default'')])]"

definition init :: "store \<Rightarrow> store" where
  "init s =
     (if file_exists s ''config.json'' then s else writeJsonFile ''config.json'' config_json s)"

text \<open>\<open>field in changeset\<close> and \<open>changeset.field\<close> (\<open>None\<close>: \<open>undefined\<close>).\<close>

definition has_field :: "json \<Rightarrow> string \<Rightarrow> bool" where
  "has_field j k = (case j of JObj kvs \<Rightarrow> k \<in> set (map fst kvs) | _ \<Rightarrow> False)"

definition get_field :: "json \<Rightarrow> string \<Rightarrow> json option" where
  "get_field j k = (case j of JObj kvs \<Rightarrow> map_of kvs k | _ \<Rightarrow> None)"

text \<open>\<open>typeof x === 'string' && x.trim()\<close> is truthy.\<close>

definition nonblank_string :: "json option \<Rightarrow> bool" where
  "nonblank_string x = (case x of Some (JStr str) \<Rightarrow> trim str \<noteq> [] | _ \<Rightarrow> False)"

text \<open>
  The first required field that is missing, in the order of \<open>requiredFields\<close>.
\<close>

fun missing_field :: "json \<Rightarrow> string list \<Rightarrow> string option" where
  "missing_field j [] = None"
| "missing_field j (field # rest) =
     (if \<not> has_field j field then Some field else missing_field j rest)"

text \<open>A value inside a template literal.\<close>

fun template_string :: "json \<Rightarrow> string" where
  "template_string JNull = ''null''"
| "template_string (JBool b) = (if b then ''true'' else ''false'')"
| "template_string (JNum n) = number_to_string n"
| "template_string (JStr str) = str"
| "template_string (JArr xs) =
     join_with '','' (map (\<lambda>x. case x of JNull \<Rightarrow> [] | _ \<Rightarrow> template_string x) xs)"
| "template_string (JObj kvs) = ''[object Object]''"

text \<open>The file name \<open>${changeset.id}.json\<close>.\<close>

definition changeset_path :: "json \<Rightarrow> string" where
  "changeset_path changeset =
     (case get_field changeset ''id'' of
        Some v \<Rightarrow> template_string v @ ''.json''
      | None \<Rightarrow> ''undefined.json'')"

text \<open>
  \<open>validateChangesetStructure\<close>. \<open>parseDate\<close> is the time value of \<open>new Date(str)\<close>
  (\<open>None\<close>: an invalid date); which strings the engine's date parser reads is not
  decided by this code, so it is a parameter.
\<close>

definition validateChangesetStructure ::
  "(string \<Rightarrow> int option) \<Rightarrow> json \<Rightarrow> string \<Rightarrow> store_error + unit" where
  "validateChangesetStructure parseDate changeset filename =
     (if \<not> (case changeset of JObj _ \<Rightarrow> True | JArr _ \<Rightarrow> True | _ \<Rightarrow> False)
      then Inl NotAnObject
      else case missing_field changeset [''id'', ''type'', ''summary'', ''createdAt''] of
        Some field \<Rightarrow> Inl (MissingField field)
      | None \<Rightarrow>
          if \<not> nonblank_string (get_field changeset ''id'') then Inl InvalidId
          else if get_field changeset ''type''
                    \<notin> set [Some (JStr ''major''), Some (JStr ''minor''), Some (JStr ''patch'')]
            then Inl InvalidType
          else if \<not> nonblank_string (get_field changeset ''summary'') then Inl InvalidSummary
          else (case get_field changeset ''createdAt'' of
                  Some (JStr created) \<Rightarrow>
                    (case parseDate created of
                       None \<Rightarrow> Inl InvalidDate
                     | Some _ \<Rightarrow>
                         if filename \<noteq> changeset_path changeset
                         then Inl (FilenameMismatch (changeset_path changeset) filename)
                         else Inr ())
                | _ \<Rightarrow> Inl CreatedAtNotString))"

text \<open>The body of the loop of \<open>getAllChangesets\<close> for one file: read, then validate.\<close>

definition read_changeset :: "(string \<Rightarrow> int option) \<Rightarrow> store \<Rightarrow> string \<Rightarrow> store_error + json" where
  "read_changeset parseDate s file =
     (case readJsonFile s file of
        Inl e \<Rightarrow> Inl e
      | Inr changeset \<Rightarrow>
         (case validateChangesetStructure parseDate changeset file of
            Inl e \<Rightarrow> Inl e
          | Inr _ \<Rightarrow> Inr changeset))"

text \<open>
  The loop: a file that fails is skipped with a warning (the file and the error), the
  others are pushed in order.
\<close>

fun read_changesets ::
  "(string \<Rightarrow> int option) \<Rightarrow> store \<Rightarrow> string list \<Rightarrow> json list \<times> (string \<times> store_error) list" where
  "read_changesets parseDate s [] = ([], [])"
| "read_changesets parseDate s (file # files) =
     (let (changesets, warnings) = read_changesets parseDate s files in
      case read_changeset parseDate s file of
        Inl e \<Rightarrow> (changesets, (file, e) # warnings)
      | Inr changeset \<Rightarrow> (changeset # changesets, warnings))"

text \<open>
  \<open>new Date(a.createdAt).getTime()\<close>, the key of the sort. Only validated records are
  sorted, and their date parses (lemma \<open>valid_time\<close>); the value 0 stands for the
  \<open>NaN\<close> of the other cases, which the sort never sees.
\<close>

definition getTime :: "(string \<Rightarrow> int option) \<Rightarrow> json \<Rightarrow> int" where
  "getTime parseDate changeset =
     (case get_field changeset ''createdAt'' of
        Some (JStr created) \<Rightarrow> (case parseDate created of Some t \<Rightarrow> t | None \<Rightarrow> 0)
      | _ \<Rightarrow> 0)"

definition changeset_files :: "store \<Rightarrow> string list" where
  "changeset_files s = filter (\<lambda>f. endsWith f ''.json'' \<and> f \<noteq> ''config.json'') (file_names s)"

text \<open>
  \<open>getAllChangesets\<close>: the sorted records, the warnings, and the store as \<open>init\<close> leaves
  it. The sort of the source is stable, as \<open>sort_key\<close> is.
\<close>

definition getAllChangesets ::
  "(string \<Rightarrow> int option) \<Rightarrow> store \<Rightarrow> json list \<times> (string \<times> store_error) list \<times> store" where
  "getAllChangesets parseDate s =
     (let s1 = init s;
          (changesets, warnings) = read_changesets parseDate s1 (changeset_files s1)
      in (sort_key (getTime parseDate) changesets, warnings, s1))"

text \<open>The deleting loop of \<open>consumeChangesets\<close>: stops at the first \<open>unlink\<close> that fails.\<close>

fun unlink_all :: "json list \<Rightarrow> store \<Rightarrow> store_error option \<times> store" where
  "unlink_all [] s = (None, s)"
| "unlink_all (changeset # changesets) s =
     (case unlink (changeset_path changeset) s of
        Inl e \<Rightarrow> (Some e, s)
      | Inr s' \<Rightarrow> unlink_all changesets s')"

definition consumeChangesets ::
  "(string \<Rightarrow> int option) \<Rightarrow> store \<Rightarrow> (store_error + json list) \<times> store" where
  "consumeChangesets parseDate s =
     (let (changesets, warnings, s1) = getAllChangesets parseDate s in
      case unlink_all changesets s1 of
        (Some e, s2) \<Rightarrow> (Inl e, s2)
      | (None, s2) \<Rightarrow> (Inr changesets, s2))"

definition adjectives :: "string list" where
  "adjectives =
     [''happy'', ''funny'', ''clever'', ''brave'', ''kind'', ''swift'',
      ''bright'', ''calm'', ''eager'', ''gentle'', ''jolly'', ''keen'',
      ''lively'', ''merry'', ''noble'', ''proud'', ''quick'', ''wise'']"

definition animals :: "string list" where
  "animals =
     [''cats'', ''dogs'', ''birds'', ''fish'', ''lions'', ''tigers'',
      ''bears'', ''wolves'', ''foxes'', ''deer'', ''owls'', ''hawks'',
      ''dolphins'', ''whales'', ''pandas'', ''koalas'', ''rabbits'', ''squirrels'']"

definition actions :: "string list" where
  "actions =
     [''dance'', ''run'', ''jump'', ''fly'', ''swim'', ''sing'',
      ''play'', ''laugh'', ''smile'', ''explore'', ''discover'', ''create'',
      ''build'', ''shine'', ''soar'', ''bloom'', ''thrive'', ''sparkle'']"

text \<open>
  \<open>generateId\<close>. The random source is a sequence of naturals; the draw
  \<open>Math.floor(Math.random() * xs.length)\<close> is the next one reduced modulo the length.
  One id takes three draws, from position \<open>pos\<close> on.
\<close>

definition pick :: "string list \<Rightarrow> nat \<Rightarrow> string" where
  "pick xs r = xs ! (r mod length xs)"

definition generateId :: "(nat \<Rightarrow> nat) \<Rightarrow> nat \<Rightarrow> string" where
  "generateId rnd pos =
     pick adjectives (rnd pos) @ ''-'' @ pick animals (rnd (pos + 1)) @ ''-''
       @ pick actions (rnd (pos + 2))"

definition maxAttempts :: nat where
  "maxAttempts = 50"

text \<open>
  The loop of \<open>generateUniqueId\<close>: \<open>ident\<close> is the current id, \<open>pos\<close> the position of the
  random source; the result is the last id and the number of attempts.
\<close>

function unique_loop :: "(nat \<Rightarrow> nat) \<Rightarrow> store \<Rightarrow> string \<Rightarrow> nat \<Rightarrow> nat \<Rightarrow> string \<times> nat" where
  "unique_loop rnd s ident attempts pos =
     (if attempts < maxAttempts
      then (if file_exists s (ident @ ''.json'')
            then unique_loop rnd s (generateId rnd pos) (attempts + 1) (pos + 3)
            else (ident, attempts))
      else (ident, attempts))"
  by pat_completeness auto
termination
  by (relation "measure (\<lambda>(rnd, s, ident, attempts, pos). maxAttempts - attempts)") auto

declare unique_loop.simps [simp del]

definition generateUniqueId :: "(nat \<Rightarrow> nat) \<Rightarrow> store \<Rightarrow> store_error + string" where
  "generateUniqueId rnd s =
     (let (ident, attempts) = unique_loop rnd s (generateId rnd 0) 0 3 in
      if attempts \<ge> maxAttempts then Inl IdGenerationExhausted else Inr ident)"

definition validateChangesetInput :: "string \<Rightarrow> string \<Rightarrow> store_error + unit" where
  "validateChangesetInput type_name summary_text =
     (if type_name \<notin> set [''major'', ''minor'', ''patch''] then Inl (InvalidChangeType type_name)
      else let trimmedSummary = trim summary_text in
        if trimmedSummary = [] then Inl EmptySummary
        else if js_length trimmedSummary < 5 then Inl SummaryTooShort
        else if js_length trimmedSummary > 200 then Inl SummaryTooLong
        else if CHR 0x0A \<in> set trimmedSummary \<or> CHR 0x0D \<in> set trimmedSummary
          then Inl SummaryLineBreak
        else Inr ())"

text \<open>The record \<open>createChangeset\<close> writes, as \<open>JSON.stringify\<close> lays it out.\<close>

definition changeset_json :: "string \<Rightarrow> string \<Rightarrow> string \<Rightarrow> string \<Rightarrow> json" where
  "changeset_json ident type_name summary_text created =
     JObj [(''id'', JStr ident), (''type'', JStr type_name), (''summary'', JStr summary_text),
           (''createdAt'', JStr created)]"

text \<open>
  \<open>createChangeset\<close>; \<open>rnd\<close> is the random source and \<open>now\<close> the clock's
  \<open>new Date().toISOString()\<close>. The store returned is the one left behind, also when
  the call throws.
\<close>

definition createChangeset ::
  "(nat \<Rightarrow> nat) \<Rightarrow> string \<Rightarrow> string \<Rightarrow> string \<Rightarrow> store \<Rightarrow> (store_error + json) \<times> store" where
  "createChangeset rnd now type_name summary_text s =
     (let s1 = init s in
      case validateChangesetInput type_name summary_text of
        Inl e \<Rightarrow> (Inl e, s1)
      | Inr _ \<Rightarrow>
         (case generateUniqueId rnd s1 of
            Inl e \<Rightarrow> (Inl e, s1)
          | Inr ident \<Rightarrow>
              let changeset = changeset_json ident type_name (trim summary_text) now
              in (Inr changeset, writeJsonFile (ident @ ''.json'') changeset s1)))"

section \<open>The publish pipeline (PublishManager)\<close>

text \<open>
  The project a publish run works on: what the checks read, the tags of the local and the
  remote repository, the registry and the releases, and for each external command that can
  fail on its own (network, scripts) whether it succeeds. The tags are listed nearest to
  \<open>HEAD\<close> first, so \<open>git describe --tags --abbrev=0\<close> gives the first one. Creating a tag
  fails when the tag exists and deleting one fails when it does not.
\<close>

record package =
  pkg_version :: "string option"
  build_script :: bool
  test_script :: bool

datatype manifest = Missing | Unparsable | Manifest package

datatype command =
    NpmRunBuild
  | NpmTest
  | GitTag string
  | GitPush bool
  | GitTagDelete string
  | GitPushDelete string
  | NpmPublish string
  | GhReleaseCreate string

record project =
  git_repo :: bool
  git_clean :: bool
  git_branch :: "string option"
  tags :: "string list"
  remote_tags :: "string list"
  package_json :: manifest
  build_ok :: bool
  test_ok :: bool
  push_ok :: bool
  remote_delete_ok :: bool
  npm_ok :: bool
  gh_available :: bool
  gh_authenticated :: bool
  github_repo :: "(string \<times> string) option"
  gh_release_ok :: bool
  published :: "string list"
  releases :: "string list"
  executed :: "command list"
  changeset_store :: store

datatype publish_error =
    NotGitRepository
  | WorkingDirectoryNotClean
  | BranchUnknown
  | CriticalChecksFailed "string list"
  | PackageJsonNotFound
  | PackageJsonSyntax
  | VersionFieldMissing
  | BuildFailed
  | TestsFailed
  | TagAlreadyExists string
  | TagCreateFailed
  | PushFailed
  | TagDeleteFailed
  | NpmPublishFailed
  | GhCliMissing
  | GhNotAuthenticated
  | GhRepositoryUnknown
  | GhReleaseFailed
  | TagRollbackFailed publish_error

datatype access = Public | Restricted

record PublishConfig =
  registry :: "string option"
  access :: "access option"
  tag :: "string option"
  dryRun :: bool
  skipBuild :: bool
  skipTest :: bool
  skipGitPush :: bool
  skipNpmPublish :: bool
  skipGitHubRelease :: bool

record PublishResult =
  success :: bool
  version :: string
  gitTag :: "string option"
  npmPublished :: "bool option"
  gitPushed :: "bool option"
  gitHubReleaseCreated :: "bool option"
  gitHubReleaseUrl :: "string option"
  errors :: "publish_error list"

subsection \<open>GitManager\<close>

definition getLatestTag :: "project \<Rightarrow> string option" where
  "getLatestTag w = (case tags w of [] \<Rightarrow> None | t # _ \<Rightarrow> Some t)"

definition tagExists :: "string \<Rightarrow> project \<Rightarrow> bool" where
  "tagExists t w = (t \<in> set (tags w))"

definition createTag :: "string \<Rightarrow> project \<Rightarrow> publish_error option \<times> project" where
  "createTag t w =
     (if t \<in> set (tags w) then (Some TagCreateFailed, w)
      else (None, w\<lparr>tags := t # tags w, executed := executed w @ [GitTag t]\<rparr>))"

text \<open>\<open>git push\<close>, with \<open>--follow-tags\<close> when \<open>includeTags\<close>.\<close>

definition push :: "bool \<Rightarrow> project \<Rightarrow> publish_error option \<times> project" where
  "push includeTags w =
     (if push_ok w
      then (None, w\<lparr>remote_tags :=
                        (if includeTags
                         then remote_tags w @ filter (\<lambda>t. t \<notin> set (remote_tags w)) (tags w)
                         else remote_tags w),
                    executed := executed w @ [GitPush includeTags]\<rparr>)
      else (Some PushFailed, w))"

text \<open>
  \<open>deleteTag\<close>: the local tag first; the deletion on the remote is tried only after it,
  and its failure is ignored.
\<close>

definition deleteTag :: "string \<Rightarrow> bool \<Rightarrow> project \<Rightarrow> publish_error option \<times> project" where
  "deleteTag t deleteRemote w =
     (if t \<notin> set (tags w) then (Some TagDeleteFailed, w)
      else
        let w1 = w\<lparr>tags := removeAll t (tags w), executed := executed w @ [GitTagDelete t]\<rparr>
        in if deleteRemote \<and> remote_delete_ok w1 \<and> t \<in> set (remote_tags w1)
           then (None, w1\<lparr>remote_tags := removeAll t (remote_tags w1),
                          executed := executed w1 @ [GitPushDelete t]\<rparr>)
           else (None, w1))"

subsection \<open>The manifest\<close>

definition getCurrentVersion :: "project \<Rightarrow> publish_error + string" where
  "getCurrentVersion w =
     (case package_json w of
        Missing \<Rightarrow> Inl PackageJsonNotFound
      | Unparsable \<Rightarrow> Inl PackageJsonSyntax
      | Manifest p \<Rightarrow>
         (case pkg_version p of
            None \<Rightarrow> Inl VersionFieldMissing
          | Some v \<Rightarrow> if v = [] then Inl VersionFieldMissing else Inr v))"

definition checkPackageJson :: "project \<Rightarrow> bool" where
  "checkPackageJson w = (package_json w \<noteq> Missing)"

definition checkBuildScript :: "project \<Rightarrow> bool" where
  "checkBuildScript w = (case package_json w of Manifest p \<Rightarrow> build_script p | _ \<Rightarrow> False)"

definition checkTestScript :: "project \<Rightarrow> bool" where
  "checkTestScript w = (case package_json w of Manifest p \<Rightarrow> test_script p | _ \<Rightarrow> False)"

subsection \<open>The release gate\<close>

datatype publish_reason = AlreadyPublished | StatusUnknown

record publish_check =
  canPublish_flag :: bool
  reason :: "publish_reason option"

definition canPublish :: "project \<Rightarrow> publish_check" where
  "canPublish w =
     (case getCurrentVersion w of
        Inl _ \<Rightarrow> \<lparr>canPublish_flag = False, reason = Some StatusUnknown\<rparr>
      | Inr currentVersion \<Rightarrow>
          if getLatestTag w = Some (''v'' @ currentVersion)
          then \<lparr>canPublish_flag = False, reason = Some AlreadyPublished\<rparr>
          else \<lparr>canPublish_flag = True, reason = None\<rparr>)"

subsection \<open>The stages\<close>

text \<open>
  \<open>validatePrePublish\<close>. The checks are the name, the status and whether the check is
  critical; the list is printed, and its critical failures abort.
\<close>

definition validatePrePublish :: "PublishConfig \<Rightarrow> project \<Rightarrow> publish_error option" where
  "validatePrePublish config w =
     (if \<not> git_repo w then Some NotGitRepository
      else if \<not> git_clean w then Some WorkingDirectoryNotClean
      else case git_branch w of
        None \<Rightarrow> Some BranchUnknown
      | Some currentBranch \<Rightarrow>
          let checks =
                [(''git repository'', True, True),
                 (''working directory'', True, True),
                 (''branch'', currentBranch \<in> set [''main'', ''master''], False),
                 (''package.json'', checkPackageJson w, True),
                 (''build script'', checkBuildScript w \<or> skipBuild config, False),
                 (''test script'', checkTestScript w \<or> skipTest config, False),
                 (''npm'', True, False)];
              criticalFailures = filter (\<lambda>(name, status, critical). critical \<and> \<not> status) checks
          in if length criticalFailures > 0
             then Some (CriticalChecksFailed (map fst criticalFailures))
             else None)"

definition runBuild :: "project \<Rightarrow> publish_error option \<times> project" where
  "runBuild w =
     (if \<not> checkBuildScript w then (None, w)
      else if build_ok w then (None, w\<lparr>executed := executed w @ [NpmRunBuild]\<rparr>)
      else (Some BuildFailed, w))"

definition runTests :: "project \<Rightarrow> publish_error option \<times> project" where
  "runTests w =
     (if \<not> checkTestScript w then (None, w)
      else if test_ok w then (None, w\<lparr>executed := executed w @ [NpmTest]\<rparr>)
      else (Some TestsFailed, w))"

definition createAndPushTag :: "string \<Rightarrow> project \<Rightarrow> (publish_error + string) \<times> project" where
  "createAndPushTag ver w =
     (let t = ''v'' @ ver in
      if tagExists t w then (Inl (TagAlreadyExists t), w)
      else case createTag t w of
        (Some e, w1) \<Rightarrow> (Inl e, w1)
      | (None, w1) \<Rightarrow>
         (case push True w1 of
            (Some e, w2) \<Rightarrow> (Inl e, w2)
          | (None, w2) \<Rightarrow> (Inr t, w2)))"

definition access_name :: "access \<Rightarrow> string" where
  "access_name a = (case a of Public \<Rightarrow> ''public'' | Restricted \<Rightarrow> ''restricted'')"

text \<open>An option of the command line: left out when the value is missing or empty.\<close>

definition cli_option :: "string \<Rightarrow> string option \<Rightarrow> string" where
  "cli_option name v = (case v of Some x \<Rightarrow> if x = [] then [] else name @ x | None \<Rightarrow> [])"

definition publishCommand :: "PublishConfig \<Rightarrow> string" where
  "publishCommand config =
     ''npm publish''
     @ cli_option '' --access '' (map_option access_name (access config))
     @ cli_option '' --tag '' (tag config)
     @ cli_option '' --registry '' (registry config)
     @ (if dryRun config then '' --dry-run'' else [])"

text \<open>
  \<open>publishToNpm\<close>: the package reaches the registry, at the version of the manifest, when
  the command succeeds and was not given \<open>--dry-run\<close>.
\<close>

definition publishToNpm :: "PublishConfig \<Rightarrow> project \<Rightarrow> publish_error option \<times> project" where
  "publishToNpm config w =
     (if npm_ok w
      then (None, w\<lparr>published :=
                        (if dryRun config then published w
                         else (case getCurrentVersion w of
                                 Inr v \<Rightarrow> v # published w
                               | Inl _ \<Rightarrow> published w)),
                    executed := executed w @ [NpmPublish (publishCommand config)]\<rparr>)
      else (Some NpmPublishFailed, w))"

definition getReleaseUrl :: "string \<Rightarrow> project \<Rightarrow> string option" where
  "getReleaseUrl t w =
     (case github_repo w of
        None \<Rightarrow> None
      | Some (owner, repo) \<Rightarrow>
          Some (''https://github.com/'' @ owner @ ''/'' @ repo @ ''/releases/tag/'' @ t))"

text \<open>
  \<open>createGitHubRelease\<close>. The release notes read from the changelog are only the body
  handed to the command.
\<close>

definition createGitHubRelease ::
  "string \<Rightarrow> project \<Rightarrow> (publish_error + string option) \<times> project" where
  "createGitHubRelease ver w =
     (if \<not> gh_available w then (Inl GhCliMissing, w)
      else if \<not> gh_authenticated w then (Inl GhNotAuthenticated, w)
      else if github_repo w = None then (Inl GhRepositoryUnknown, w)
      else if \<not> gh_release_ok w then (Inl GhReleaseFailed, w)
      else
        let w1 = w\<lparr>releases := (''v'' @ ver) # releases w,
                    executed := executed w @ [GhReleaseCreate (''v'' @ ver)]\<rparr>
        in (Inr (getReleaseUrl (''v'' @ ver) w1), w1))"

subsection \<open>publish\<close>

text \<open>
  The state inside \<open>publish\<close>: the error thrown so far if any, the result object and
  the project. A step runs only while nothing has been thrown.
\<close>

type_synonym run = "publish_error option \<times> PublishResult \<times> project"

definition step :: "run \<Rightarrow> (PublishResult \<Rightarrow> project \<Rightarrow> run) \<Rightarrow> run" where
  "step r f = (case r of (Some e, res, w) \<Rightarrow> (Some e, res, w) | (None, res, w) \<Rightarrow> f res w)"

definition validate_step :: "PublishConfig \<Rightarrow> PublishResult \<Rightarrow> project \<Rightarrow> run" where
  "validate_step config res w = (validatePrePublish config w, res, w)"

definition version_step :: "PublishResult \<Rightarrow> project \<Rightarrow> run" where
  "version_step res w =
     (case getCurrentVersion w of
        Inl e \<Rightarrow> (Some e, res, w)
      | Inr currentVersion \<Rightarrow> (None, res\<lparr>version := currentVersion\<rparr>, w))"

definition build_step :: "PublishConfig \<Rightarrow> PublishResult \<Rightarrow> project \<Rightarrow> run" where
  "build_step config res w =
     (if \<not> skipBuild config then (case runBuild w of (e, w1) \<Rightarrow> (e, res, w1)) else (None, res, w))"

definition test_step :: "PublishConfig \<Rightarrow> PublishResult \<Rightarrow> project \<Rightarrow> run" where
  "test_step config res w =
     (if \<not> skipTest config then (case runTests w of (e, w1) \<Rightarrow> (e, res, w1)) else (None, res, w))"

definition tag_step :: "PublishConfig \<Rightarrow> PublishResult \<Rightarrow> project \<Rightarrow> run" where
  "tag_step config res w =
     (if \<not> skipGitPush config
      then (case createAndPushTag (version res) w of
              (Inl e, w1) \<Rightarrow> (Some e, res, w1)
            | (Inr t, w1) \<Rightarrow> (None, res\<lparr>gitTag := Some t, gitPushed := Some True\<rparr>, w1))
      else (None, res, w))"

definition npm_step :: "PublishConfig \<Rightarrow> PublishResult \<Rightarrow> project \<Rightarrow> run" where
  "npm_step config res w =
     (if \<not> skipNpmPublish config
      then (case publishToNpm config w of
              (Some e, w1) \<Rightarrow> (Some e, res, w1)
            | (None, w1) \<Rightarrow> (None, res\<lparr>npmPublished := Some True\<rparr>, w1))
      else (None, res, w))"

text \<open>The release step catches its own failure: it is printed, not thrown.\<close>

definition release_step :: "PublishConfig \<Rightarrow> PublishResult \<Rightarrow> project \<Rightarrow> run" where
  "release_step config res w =
     (if \<not> skipGitHubRelease config \<and> \<not> dryRun config
      then (case createGitHubRelease (version res) w of
              (Inl e, w1) \<Rightarrow> (None, res, w1)
            | (Inr releaseUrl, w1) \<Rightarrow>
                (None,
                 (case releaseUrl of
                    Some url \<Rightarrow>
                      if url \<noteq> []
                      then res\<lparr>gitHubReleaseCreated := Some True, gitHubReleaseUrl := Some url\<rparr>
                      else res\<lparr>gitHubReleaseCreated := Some True\<rparr>
                  | None \<Rightarrow> res\<lparr>gitHubReleaseCreated := Some True\<rparr>),
                 w1))
      else (None, res, w))"

text \<open>The body of the \<open>try\<close>.\<close>

definition publish_try :: "PublishConfig \<Rightarrow> project \<Rightarrow> run" where
  "publish_try config w =
     step (step (step (step (step (step
       (validate_step config
          \<lparr>success = False, version = [], gitTag = None, npmPublished = None, gitPushed = None,
           gitHubReleaseCreated = None, gitHubReleaseUrl = None, errors = []\<rparr> w)
       version_step)
       (build_step config))
       (test_step config))
       (tag_step config))
       (npm_step config))
       (release_step config)"

text \<open>
  The outcome of \<open>publish\<close>: the result it returns, or the error it throws; for a throw
  the result object is kept as the handler left it, although the caller does not get it.
\<close>

datatype publish_outcome = Returned PublishResult | Thrown publish_error PublishResult

definition truthy_string :: "string option \<Rightarrow> bool" where
  "truthy_string x = (case x of Some str \<Rightarrow> str \<noteq> [] | None \<Rightarrow> False)"

text \<open>The \<open>catch\<close>: record the message, roll the tag back when it applies, throw again.\<close>

definition publish_catch ::
  "PublishConfig \<Rightarrow> publish_error \<Rightarrow> PublishResult \<Rightarrow> project \<Rightarrow> publish_outcome \<times> project" where
  "publish_catch config e res w =
     (let res1 = res\<lparr>errors := [e]\<rparr> in
      if truthy_string (gitTag res1) \<and> npmPublished res1 \<noteq> Some True \<and> \<not> skipNpmPublish config
      then (case gitTag res1 of
              Some t \<Rightarrow>
                (case deleteTag t True w of
                   (None, w1) \<Rightarrow> (Thrown e res1, w1)
                 | (Some rollbackError, w1) \<Rightarrow>
                     (Thrown e (res1\<lparr>errors := errors res1 @ [TagRollbackFailed rollbackError]\<rparr>),
                      w1))
            | None \<Rightarrow> (Thrown e res1, w))
      else (Thrown e res1, w))"

definition publish :: "PublishConfig \<Rightarrow> project \<Rightarrow> publish_outcome \<times> project" where
  "publish config w =
     (case publish_try config w of
        (None, res, w1) \<Rightarrow> (Returned (res\<lparr>success := True\<rparr>), w1)
      | (Some e, res, w1) \<Rightarrow> publish_catch config e res w1)"

text \<open>A project and a configuration for worked examples.\<close>

definition sample_project :: project where
  "sample_project =
     \<lparr>git_repo = True, git_clean = True, git_branch = Some ''main'',
      tags = [''v0.9.0''], remote_tags = [''v0.9.0''],
      package_json = Manifest \<lparr>pkg_version = Some ''1.0.0'', build_script = True, test_script = True\<rparr>,
      build_ok = True, test_ok = True, push_ok = True, remote_delete_ok = True, npm_ok = True,
      gh_available = True, gh_authenticated = True, github_repo = Some (''acme'', ''widget''),
      gh_release_ok = True, published = [''0.9.0''], releases = [''v0.9.0''], executed = [],
      changeset_store = []\<rparr>"

definition default_config :: PublishConfig where
  "default_config =
     \<lparr>registry = None, access = None, tag = None, dryRun = False, skipBuild = False,
      skipTest = False, skipGitPush = False, skipNpmPublish = False, skipGitHubRelease = False\<rparr>"

text \<open>A store, a date parser and a random source for worked examples.\<close>

definition sample_record :: json where
  "sample_record =
     changeset_json ''happy-cats-dance'' ''patch'' ''fix login'' ''2024-01-02T00:00:00.000Z''"

definition sample_store :: store where
  "sample_store =
     [(''config.json'', Some config_json), (''happy-cats-dance.json'', Some sample_record),
      (''broken.json'', None)]"

definition sample_dates :: "string \<Rightarrow> int option" where
  "sample_dates str = (if str = ''2024-01-02T00:00:00.000Z'' then Some 1704153600000 else None)"

definition first_words :: "nat \<Rightarrow> nat" where
  "first_words n = 0"

text \<open>
  A second store for worked examples. Its first record was written by hand with the date in
  the form \<open>toUTCString\<close> gives, which every engine's date parser reads; \<open>utc_dates\<close> is
  that parser on the two dates of the store.
\<close>

definition utc_record :: json where
  "utc_record =
     changeset_json ''calm-owls-sing'' ''minor'' ''dark mode'' ''Wed, 03 Jan 2024 00:00:00 GMT''"

definition utc_store :: store where
  "utc_store =
     [(''config.json'', Some config_json), (''calm-owls-sing.json'', Some utc_record),
      (''happy-cats-dance.json'', Some sample_record)]"

definition utc_dates :: "string \<Rightarrow> int option" where
  "utc_dates str =
     (if str = ''2024-01-02T00:00:00.000Z'' then Some 1704153600000
      else if str = ''Wed, 03 Jan 2024 00:00:00 GMT'' then Some 1704240000000
      else None)"

text \<open>
  The wording of the specification for the date of a record, an ISO date string: the form
  \<open>YYYY-MM-DDTHH:mm:ss.sssZ\<close> that \<open>toISOString\<close> writes and that every record
  created by \<open>createChangeset\<close> carries. In the pattern, \<open>d\<close> stands for a digit.
\<close>

definition iso_date_string :: "string \<Rightarrow> bool" where
  "iso_date_string str =
     list_all2 (\<lambda>p c. if p = CHR ''d'' then is_digit c else c = p) ''dddd-dd-ddTdd:dd:dd.dddZ'' str"





section \<open>Facts about strings and numerals\<close>

lemma split_on_nonempty: "split_on c s \<noteq> []"
  by (induction s) auto

lemma split_on_no_sep: "c \<notin> set s \<Longrightarrow> split_on c s = [s]"
  by (induction s) auto

lemma split_on_append: "split_on c (a @ c # b) = split_on c a @ split_on c b"
proof (induction a)
  case Nil
  then show ?case by simp
next
  case (Cons x a)
  have ne: "split_on c a \<noteq> []" by (rule split_on_nonempty)
  then obtain p ps where "split_on c a = p # ps" by (cases "split_on c a") auto
  with Cons show ?case by simp
qed

lemma is_digit_digit_char: "d < 10 \<Longrightarrow> is_digit (digit_char d)"
proof -
  assume "d < 10"
  then have "d \<in> {0,1,2,3,4,5,6,7,8,9}" by auto
  then show ?thesis by (auto simp: is_digit_def digit_char_def)
qed

lemma digit_val_digit_char: "d < 10 \<Longrightarrow> digit_val (digit_char d) = d"
proof -
  assume "d < 10"
  then have "d \<in> {0,1,2,3,4,5,6,7,8,9}" by auto
  then show ?thesis by (auto simp: digit_val_def digit_char_def)
qed

lemma nat_to_string_digits: "\<forall>c \<in> set (nat_to_string n). is_digit c"
proof (induction n rule: nat_to_string.induct)
  case (1 n)
  show ?case
  proof (cases "n < 10")
    case True
    then show ?thesis by (subst nat_to_string.simps) (simp add: is_digit_digit_char)
  next
    case False
    with 1 show ?thesis by (subst nat_to_string.simps) (simp add: is_digit_digit_char)
  qed
qed

lemma nat_to_string_nonempty: "nat_to_string n \<noteq> []"
  by (subst nat_to_string.simps) simp

lemma dec_value_snoc: "dec_value (z @ [c]) = 10 * dec_value z + digit_val c"
  by (simp add: dec_value_def)

lemma dec_value_nat_to_string: "dec_value (nat_to_string n) = n"
proof (induction n rule: nat_to_string.induct)
  case (1 n)
  show ?case
  proof (cases "n < 10")
    case True
    then show ?thesis
      by (subst nat_to_string.simps) (simp add: dec_value_def digit_val_digit_char)
  next
    case False
    with 1 have "dec_value (nat_to_string (n div 10)) = n div 10" by simp
    with False show ?thesis
      by (subst nat_to_string.simps) (simp add: dec_value_snoc digit_val_digit_char)
  qed
qed

lemma ws2_leads: "hd ` set ws2 = {CHR 0xC2}"
  by (simp add: ws2_def)

lemma ws3_leads: "hd ` set ws3 = {CHR 0xE1, CHR 0xE2, CHR 0xE3, CHR 0xEF}"
  by (simp add: ws3_def)

lemma ws_leads_sub: "set ws1 \<union> hd ` set ws2 \<union> hd ` set ws3 \<subseteq> set ws_leads"
  unfolding ws2_leads ws3_leads by (simp add: ws1_def ws_leads_def)

lemma ws_head_lead:
  assumes "ws_head (c # s) \<noteq> 0"
  shows "c \<in> set ws_leads"
proof -
  have "c \<in> set ws1 \<or> take 2 (c # s) \<in> set ws2 \<or> take 3 (c # s) \<in> set ws3"
    using assms by (simp add: ws_head_def split: if_splits)
  then consider "c \<in> set ws1" | "take 2 (c # s) \<in> set ws2" | "take 3 (c # s) \<in> set ws3"
    by blast
  then have "c \<in> set ws1 \<union> hd ` set ws2 \<union> hd ` set ws3"
  proof cases
    case 1
    then show ?thesis by simp
  next
    case 2
    then have "hd (take 2 (c # s)) \<in> hd ` set ws2" by (rule imageI)
    moreover have "hd (take 2 (c # s)) = c" by (simp add: numeral_2_eq_2)
    ultimately show ?thesis by simp
  next
    case 3
    then have "hd (take 3 (c # s)) \<in> hd ` set ws3" by (rule imageI)
    moreover have "hd (take 3 (c # s)) = c" by (simp add: numeral_3_eq_3)
    ultimately show ?thesis by simp
  qed
  then show ?thesis using ws_leads_sub by blast
qed

lemma trimStart_no_lead: "c \<notin> set ws_leads \<Longrightarrow> trimStart (c # s) = c # s"
  using ws_head_lead [of c s] by (subst trimStart.simps) auto

lemma is_digit_not_lead: "is_digit c \<Longrightarrow> c \<notin> set ws_leads"
  by (auto simp: is_digit_def ws_leads_def)

lemma trimStart_digit: "is_digit c \<Longrightarrow> trimStart (c # s) = c # s"
  by (rule trimStart_no_lead) (rule is_digit_not_lead)

lemma not_digit_chars [simp]:
  "\<not> is_digit (CHR ''.'')" "\<not> is_digit (CHR ''v'')"
  "\<not> is_digit (CHR ''-'')" "\<not> is_digit (CHR ''+'')"
  by (simp_all add: is_digit_def)

subsection \<open>Doubles\<close>

lemma round_nat_small: "a \<le> 2 ^ 53 \<Longrightarrow> round_nat a = a"
  by (simp add: round_nat_def)

lemma to_double_small:
  assumes "\<bar>i\<bar> \<le> 2 ^ 53"
  shows "to_double i = Fin i"
proof -
  have le: "nat \<bar>i\<bar> \<le> 2 ^ 53" using assms by (simp add: nat_le_iff)
  then have r: "round_nat (nat \<bar>i\<bar>) = nat \<bar>i\<bar>" by (rule round_nat_small)
  have "(2::nat) ^ 53 < 2 ^ 1024" by (rule power_strict_increasing) simp_all
  with le have "\<not> 2 ^ 1024 \<le> nat \<bar>i\<bar>" by linarith
  then show ?thesis unfolding to_double_def r Let_def by (simp only: if_False) simp
qed

lemma round_nat_saturates: "round_nat 9007199254740993 = 9007199254740992"
  by (simp add: round_nat_def bit_length.simps Let_def)

lemma js_add_one:
  assumes "0 \<le> a" "a < 2 ^ 53"
  shows "js_add (Fin a) (Fin 1) = Fin (a + 1)"
  using assms by (simp add: to_double_small)

lemma js_add_one_top: "js_add (Fin 9007199254740992) (Fin 1) = Fin 9007199254740992"
proof -
  have "(9007199254740992::nat) < 2 ^ 1024" by simp
  then show ?thesis by (simp add: to_double_def round_nat_saturates Let_def)
qed

lemma count_step:
  assumes "0 \<le> n" "n \<le> 2 ^ 53"
  shows "\<exists>m. js_add (Fin n) (Fin 1) = Fin m \<and> n \<le> m \<and> 0 < m \<and> m \<le> 2 ^ 53"
proof (cases "n < 2 ^ 53")
  case True
  with assms(1) have "js_add (Fin n) (Fin 1) = Fin (n + 1)" by (rule js_add_one)
  with True assms(1) show ?thesis by simp
next
  case False
  with assms(2) have "n = 9007199254740992" by simp
  then show ?thesis by (simp only: js_add_one_top) simp
qed


lemma foldl_count_major:
  assumes "major acc = Fin n" "0 \<le> n" "n \<le> 2 ^ 53"
  shows "\<exists>m. major (foldl count_change acc cs) = Fin m \<and> n \<le> m \<and> m \<le> 2 ^ 53
           \<and> (0 < m \<longleftrightarrow> 0 < n \<or> (\<exists>c \<in> set cs. type c = Major))"
  using assms
proof (induction cs arbitrary: acc n)
  case Nil
  then show ?case by simp
next
  case (Cons c cs)
  show ?case
  proof (cases "type c = Major")
    case True
    from count_step [OF Cons.prems(2,3)]
    obtain k where k: "js_add (Fin n) (Fin 1) = Fin k" "n \<le> k" "0 < k" "k \<le> 2 ^ 53" by blast
    have "major (count_change acc c) = Fin k"
      using True Cons.prems(1) k(1) by (simp add: count_change_def)
    from Cons.IH [OF this _ k(4)] k(3)
    obtain m where "major (foldl count_change (count_change acc c) cs) = Fin m"
      "k \<le> m" "m \<le> 2 ^ 53" by auto
    with k True show ?thesis by auto
  next
    case False
    then have "major (count_change acc c) = Fin n"
      using Cons.prems(1) by (cases "type c") (simp_all add: count_change_def)
    from Cons.IH [OF this Cons.prems(2,3)] False show ?thesis by auto
  qed
qed

lemma foldl_count_minor:
  assumes "minor acc = Fin n" "0 \<le> n" "n \<le> 2 ^ 53"
  shows "\<exists>m. minor (foldl count_change acc cs) = Fin m \<and> n \<le> m \<and> m \<le> 2 ^ 53
           \<and> (0 < m \<longleftrightarrow> 0 < n \<or> (\<exists>c \<in> set cs. type c = Minor))"
  using assms
proof (induction cs arbitrary: acc n)
  case Nil
  then show ?case by simp
next
  case (Cons c cs)
  show ?case
  proof (cases "type c = Minor")
    case True
    from count_step [OF Cons.prems(2,3)]
    obtain k where k: "js_add (Fin n) (Fin 1) = Fin k" "n \<le> k" "0 < k" "k \<le> 2 ^ 53" by blast
    have "minor (count_change acc c) = Fin k"
      using True Cons.prems(1) k(1) by (simp add: count_change_def)
    from Cons.IH [OF this _ k(4)] k(3)
    obtain m where "minor (foldl count_change (count_change acc c) cs) = Fin m"
      "k \<le> m" "m \<le> 2 ^ 53" by auto
    with k True show ?thesis by auto
  next
    case False
    then have "minor (count_change acc c) = Fin n"
      using Cons.prems(1) by (cases "type c") (simp_all add: count_change_def)
    from Cons.IH [OF this Cons.prems(2,3)] False show ?thesis by auto
  qed
qed

lemma foldl_count_patch:
  assumes "patch acc = Fin n" "0 \<le> n" "n \<le> 2 ^ 53"
  shows "\<exists>m. patch (foldl count_change acc cs) = Fin m \<and> n \<le> m \<and> m \<le> 2 ^ 53
           \<and> (0 < m \<longleftrightarrow> 0 < n \<or> (\<exists>c \<in> set cs. type c = Patch))"
  using assms
proof (induction cs arbitrary: acc n)
  case Nil
  then show ?case by simp
next
  case (Cons c cs)
  show ?case
  proof (cases "type c = Patch")
    case True
    from count_step [OF Cons.prems(2,3)]
    obtain k where k: "js_add (Fin n) (Fin 1) = Fin k" "n \<le> k" "0 < k" "k \<le> 2 ^ 53" by blast
    have "patch (count_change acc c) = Fin k"
      using True Cons.prems(1) k(1) by (simp add: count_change_def)
    from Cons.IH [OF this _ k(4)] k(3)
    obtain m where "patch (foldl count_change (count_change acc c) cs) = Fin m"
      "k \<le> m" "m \<le> 2 ^ 53" by auto
    with k True show ?thesis by auto
  next
    case False
    then have "patch (count_change acc c) = Fin n"
      using Cons.prems(1) by (cases "type c") (simp_all add: count_change_def)
    from Cons.IH [OF this Cons.prems(2,3)] False show ?thesis by auto
  qed
qed

lemma counts_major_pos:
  "js_gt (major (foldl count_change \<lparr>major = Fin 0, minor = Fin 0, patch = Fin 0\<rparr> cs)) (Fin 0)
     \<longleftrightarrow> (\<exists>c \<in> set cs. type c = Major)"
  using foldl_count_major [of "\<lparr>major = Fin 0, minor = Fin 0, patch = Fin 0\<rparr>" 0 cs]
  by (auto simp: js_gt_def)

lemma counts_minor_pos:
  "js_gt (minor (foldl count_change \<lparr>major = Fin 0, minor = Fin 0, patch = Fin 0\<rparr> cs)) (Fin 0)
     \<longleftrightarrow> (\<exists>c \<in> set cs. type c = Minor)"
  using foldl_count_minor [of "\<lparr>major = Fin 0, minor = Fin 0, patch = Fin 0\<rparr>" 0 cs]
  by (auto simp: js_gt_def)

lemma counts_patch_pos:
  "js_gt (patch (foldl count_change \<lparr>major = Fin 0, minor = Fin 0, patch = Fin 0\<rparr> cs)) (Fin 0)
     \<longleftrightarrow> (\<exists>c \<in> set cs. type c = Patch)"
  using foldl_count_patch [of "\<lparr>major = Fin 0, minor = Fin 0, patch = Fin 0\<rparr>" 0 cs]
  by (auto simp: js_gt_def)

lemma calculateNextVersion_nonempty:
  assumes "parseVersion cur = Inr parsed" and "cs \<noteq> []"
  shows "calculateNextVersion cur cs =
           Inr \<lparr>current = cur,
                next = version_string (bump parsed
                   (foldl count_change \<lparr>major = Fin 0, minor = Fin 0, patch = Fin 0\<rparr> cs)),
                hasChanges = True,
                changesByType = foldl count_change \<lparr>major = Fin 0, minor = Fin 0, patch = Fin 0\<rparr> cs\<rparr>"
  using assms by (simp add: calculateNextVersion_def Let_def)

lemma to_double_nonneg:
  assumes "0 \<le> i"
  shows "to_double i = PosInfinity \<or> (\<exists>n. to_double i = Fin n \<and> 0 \<le> n)"
  using assms by (simp add: to_double_def Let_def)

lemma parseInt10_digits:
  assumes "z \<noteq> []" and "\<forall>c \<in> set z. is_digit c"
  shows "parseInt10 z = to_double (int (dec_value z))"
proof -
  from assms obtain c r where z: "z = c # r" by (cases z) auto
  with assms have d: "is_digit c" by simp
  then have sgn: "c \<noteq> CHR ''-''" "c \<noteq> CHR ''+''" using not_digit_chars by blast+
  have tw: "takeWhile is_digit z = z" using assms(2) by (simp add: takeWhile_eq_all_conv)
  have ts: "trimStart z = z" using d z by (simp add: trimStart_digit)
  show ?thesis unfolding parseInt10_def ts
    using sgn tw assms(1) by (simp add: z)
qed

lemma parse_part_digits:
  assumes "z \<noteq> []" and "\<forall>c \<in> set z. is_digit c"
  shows "parse_part z = Inr (to_double (int (dec_value z)))"
proof -
  have "0 \<le> int (dec_value z)" by simp
  from to_double_nonneg [OF this]
  have "to_double (int (dec_value z)) \<noteq> NaN \<and> \<not> js_lt (to_double (int (dec_value z))) (Fin 0)"
    by auto
  then show ?thesis
    by (simp add: parse_part_def parseInt10_digits [OF assms] isNaN_def)
qed

lemma number_to_string_small:
  assumes "0 \<le> n" "n \<le> 2 ^ 53"
  shows "number_to_string (Fin n) = nat_to_string (nat n)"
proof -
  have "nat n \<le> 2 ^ 53" using assms by (simp add: nat_le_iff)
  with assms(1) show ?thesis by (simp add: number_to_string_def render_nat_def)
qed

lemma parse_part_number:
  assumes "0 \<le> n" "n \<le> 2 ^ 53"
  shows "parse_part (number_to_string (Fin n)) = Inr (Fin n)"
proof -
  have "parse_part (nat_to_string (nat n)) = Inr (to_double (int (dec_value (nat_to_string (nat n)))))"
    by (rule parse_part_digits) (simp_all add: nat_to_string_nonempty nat_to_string_digits)
  moreover have "to_double n = Fin n" using assms by (intro to_double_small) simp
  ultimately show ?thesis
    using assms by (simp add: number_to_string_small dec_value_nat_to_string)
qed

lemma dot_not_digit: "\<forall>c \<in> set z. is_digit c \<Longrightarrow> CHR ''.'' \<notin> set z"
  using not_digit_chars(1) by blast

lemma v_not_digit: "is_digit c \<Longrightarrow> c \<noteq> CHR ''v''"
  using not_digit_chars(2) by blast

lemma split_digit_triple:
  assumes "\<forall>c \<in> set a. is_digit c" "\<forall>c \<in> set b. is_digit c" "\<forall>c \<in> set d. is_digit c"
  shows "split_on (CHR ''.'') (a @ ''.'' @ b @ ''.'' @ d) = [a, b, d]"
proof -
  have "split_on (CHR ''.'') (a @ CHR ''.'' # (b @ CHR ''.'' # d))
        = split_on (CHR ''.'') a @ split_on (CHR ''.'') (b @ CHR ''.'' # d)"
    by (rule split_on_append)
  also have "split_on (CHR ''.'') (b @ CHR ''.'' # d) = split_on (CHR ''.'') b @ split_on (CHR ''.'') d"
    by (rule split_on_append)
  finally show ?thesis
    using assms by (simp add: split_on_no_sep dot_not_digit)
qed

lemma parseVersion_digits:
  assumes "a \<noteq> []" "b \<noteq> []" "d \<noteq> []"
    and "\<forall>c \<in> set a. is_digit c" "\<forall>c \<in> set b. is_digit c" "\<forall>c \<in> set d. is_digit c"
  shows "parseVersion (a @ ''.'' @ b @ ''.'' @ d)
         = Inr \<lparr>major = to_double (int (dec_value a)), minor = to_double (int (dec_value b)),
                patch = to_double (int (dec_value d))\<rparr>"
proof -
  from assms obtain c r where a: "a = c # r" by (cases a) auto
  with assms have "is_digit c" by simp
  then have "c \<noteq> CHR ''v''" by (rule v_not_digit)
  then have rv: "remove_v_prefix (a @ ''.'' @ b @ ''.'' @ d) = a @ ''.'' @ b @ ''.'' @ d"
    by (simp add: remove_v_prefix_def a)
  show ?thesis
    unfolding parseVersion_def rv Let_def split_digit_triple [OF assms(4-6)]
    using assms by (simp add: parse_part_digits)
qed

lemma parseVersion_version_string:
  assumes "0 \<le> a" "a \<le> 2 ^ 53" "0 \<le> b" "b \<le> 2 ^ 53" "0 \<le> c" "c \<le> 2 ^ 53"
  shows "parseVersion (version_string \<lparr>major = Fin a, minor = Fin b, patch = Fin c\<rparr>)
           = Inr \<lparr>major = Fin a, minor = Fin b, patch = Fin c\<rparr>"
proof -
  have "parseVersion (nat_to_string (nat a) @ ''.'' @ nat_to_string (nat b) @ ''.''
       @ nat_to_string (nat c)) = Inr \<lparr>major = to_double (int (dec_value (nat_to_string (nat a)))),
          minor = to_double (int (dec_value (nat_to_string (nat b)))),
          patch = to_double (int (dec_value (nat_to_string (nat c))))\<rparr>"
    by (rule parseVersion_digits) (simp_all add: nat_to_string_nonempty nat_to_string_digits)
  moreover have "to_double a = Fin a" "to_double b = Fin b" "to_double c = Fin c"
    using assms by (simp_all add: to_double_small)
  ultimately show ?thesis using assms
    by (simp add: version_string_def number_to_string_small dec_value_nat_to_string)
qed

lemma parse_part_nonneg:
  assumes "parse_part p = Inr x"
  shows "x = PosInfinity \<or> (\<exists>n. x = Fin n \<and> 0 \<le> n)"
proof -
  from assms have x: "x \<noteq> NaN" "\<not> js_lt x (Fin 0)"
    by (auto simp: parse_part_def Let_def isNaN_def split: if_splits)
  then show ?thesis by (cases x) simp_all
qed

lemma parseVersion_parts:
  assumes "parseVersion s = Inr p"
  shows "\<exists>p1 p2 p3. split_on (CHR ''.'') (remove_v_prefix s) = [p1, p2, p3]
           \<and> parse_part p1 = Inr (major p) \<and> parse_part p2 = Inr (minor p)
           \<and> parse_part p3 = Inr (patch p)"
proof -
  let ?ps = "split_on (CHR ''.'') (remove_v_prefix s)"
  have len: "\<exists>p1 p2 p3. ?ps = [p1, p2, p3]"
  proof (rule ccontr)
    assume "\<not> ?thesis"
    then have "(case ?ps of [p1, p2, p3] \<Rightarrow> f p1 p2 p3 | _ \<Rightarrow> Inl (InvalidVersionFormat s))
               = Inl (InvalidVersionFormat s)" for f :: "string \<Rightarrow> string \<Rightarrow> string \<Rightarrow> version_error + numbers3"
      by (simp split: list.splits)
    with assms show False by (simp add: parseVersion_def Let_def)
  qed
  then obtain p1 p2 p3 where ps: "?ps = [p1, p2, p3]" by blast
  from assms obtain a where a: "parse_part p1 = Inr a"
    by (cases "parse_part p1") (simp_all add: parseVersion_def Let_def ps)
  from assms obtain b where b: "parse_part p2 = Inr b"
    by (cases "parse_part p2") (simp_all add: parseVersion_def Let_def ps a)
  from assms obtain c where c: "parse_part p3 = Inr c"
    by (cases "parse_part p3") (simp_all add: parseVersion_def Let_def ps a b)
  from assms have "p = \<lparr>major = a, minor = b, patch = c\<rparr>"
    by (simp add: parseVersion_def Let_def ps a b c)
  with ps a b c show ?thesis by simp
qed

lemma parseVersion_nonneg:
  assumes "parseVersion s = Inr p"
  shows "(major p = Fin a \<longrightarrow> 0 \<le> a) \<and> (minor p = Fin b \<longrightarrow> 0 \<le> b) \<and> (patch p = Fin c \<longrightarrow> 0 \<le> c)"
  using parseVersion_parts [OF assms] by (auto dest: parse_part_nonneg)

lemma js_sub_small:
  assumes "0 \<le> x" "x \<le> 2 ^ 53" "0 \<le> y" "y \<le> 2 ^ 53"
  shows "js_sub (Fin x) (Fin y) = Fin (x - y)"
proof -
  have "\<bar>x - y\<bar> \<le> 2 ^ 53" using assms by simp
  then have "to_double (x - y) = Fin (x - y)" by (rule to_double_small)
  then show ?thesis by (simp add: js_sub_def)
qed

section \<open>Version calculation: proofs\<close>

lemma bump_major:
  assumes "js_gt (major k) (Fin 0)" "major p = Fin a" "0 \<le> a" "a < 2 ^ 53"
  shows "bump p k = \<lparr>major = Fin (a + 1), minor = Fin 0, patch = Fin 0\<rparr>"
  using assms by (simp add: bump_def to_double_small)

lemma bump_minor:
  assumes "\<not> js_gt (major k) (Fin 0)" "js_gt (minor k) (Fin 0)" "minor p = Fin b" "0 \<le> b" "b < 2 ^ 53"
  shows "bump p k = \<lparr>major = major p, minor = Fin (b + 1), patch = Fin 0\<rparr>"
  using assms by (simp add: bump_def to_double_small)

lemma bump_patch:
  assumes "\<not> js_gt (major k) (Fin 0)" "\<not> js_gt (minor k) (Fin 0)" "js_gt (patch k) (Fin 0)"
    "patch p = Fin c" "0 \<le> c" "c < 2 ^ 53"
  shows "bump p k = \<lparr>major = major p, minor = minor p, patch = Fin (c + 1)\<rparr>"
  using assms by (simp add: bump_def to_double_small)

text \<open>
  Claim C1, as amended. For every current version that parses and every changeset list: if
  some changeset is of type major and the major component is below \<open>2 ^ 53\<close>,
  \<open>calculateNextVersion\<close> returns a next version whose string is \<open>(major + 1).0.0\<close>
  and which parses to major + 1, minor 0, patch 0, whatever minor and patch changesets are
  present; if none is major, some changeset is minor, and the major and minor components
  are below \<open>2 ^ 53\<close>, the next version is \<open>major.(minor + 1).0\<close>.
\<close>

theorem calculateNextVersion_precedence:
  assumes "parseVersion currentVersion = Inr parsed"
  shows "((\<exists>c \<in> set changesets. type c = Major) \<and> major parsed = Fin a \<and> a < 2 ^ 53 \<longrightarrow>
            (\<exists>info. calculateNextVersion currentVersion changesets = Inr info
               \<and> next info = version_string \<lparr>major = Fin (a + 1), minor = Fin 0, patch = Fin 0\<rparr>
               \<and> parseVersion (next info) = Inr \<lparr>major = Fin (a + 1), minor = Fin 0, patch = Fin 0\<rparr>))
       \<and> ((\<forall>c \<in> set changesets. type c \<noteq> Major) \<and> (\<exists>c \<in> set changesets. type c = Minor)
            \<and> major parsed = Fin a \<and> a < 2 ^ 53 \<and> minor parsed = Fin b \<and> b < 2 ^ 53 \<longrightarrow>
            (\<exists>info. calculateNextVersion currentVersion changesets = Inr info
               \<and> next info = version_string \<lparr>major = Fin a, minor = Fin (b + 1), patch = Fin 0\<rparr>
               \<and> parseVersion (next info) = Inr \<lparr>major = Fin a, minor = Fin (b + 1), patch = Fin 0\<rparr>))"
proof (intro conjI impI)
  let ?k = "foldl count_change \<lparr>major = Fin 0, minor = Fin 0, patch = Fin 0\<rparr> changesets"
  note nn = parseVersion_nonneg [OF assms, of a b 0]
  {
    assume h: "(\<exists>c \<in> set changesets. type c = Major) \<and> major parsed = Fin a \<and> a < 2 ^ 53"
    then have ne: "changesets \<noteq> []" by auto
    from h nn have a: "0 \<le> a" by simp
    from h have "js_gt (major ?k) (Fin 0)" by (simp only: counts_major_pos)
    with h a have b: "bump parsed ?k = \<lparr>major = Fin (a + 1), minor = Fin 0, patch = Fin 0\<rparr>"
      by (intro bump_major) simp_all
    have "parseVersion (version_string \<lparr>major = Fin (a + 1), minor = Fin 0, patch = Fin 0\<rparr>)
            = Inr \<lparr>major = Fin (a + 1), minor = Fin 0, patch = Fin 0\<rparr>"
      using a h by (intro parseVersion_version_string) simp_all
    then show "\<exists>info. calculateNextVersion currentVersion changesets = Inr info
               \<and> next info = version_string \<lparr>major = Fin (a + 1), minor = Fin 0, patch = Fin 0\<rparr>
               \<and> parseVersion (next info) = Inr \<lparr>major = Fin (a + 1), minor = Fin 0, patch = Fin 0\<rparr>"
      by (simp add: calculateNextVersion_nonempty [OF assms ne] b)
  }
  {
    assume h: "(\<forall>c \<in> set changesets. type c \<noteq> Major) \<and> (\<exists>c \<in> set changesets. type c = Minor)
            \<and> major parsed = Fin a \<and> a < 2 ^ 53 \<and> minor parsed = Fin b \<and> b < 2 ^ 53"
    then have ne: "changesets \<noteq> []" by auto
    from h nn have a: "0 \<le> a" "0 \<le> b" by simp_all
    from h have "\<not> js_gt (major ?k) (Fin 0)" by (simp only: counts_major_pos) blast
    moreover from h have "js_gt (minor ?k) (Fin 0)" by (simp only: counts_minor_pos)
    ultimately have "bump parsed ?k = \<lparr>major = major parsed, minor = Fin (b + 1), patch = Fin 0\<rparr>"
      using h a by (intro bump_minor) simp_all
    with h have b: "bump parsed ?k = \<lparr>major = Fin a, minor = Fin (b + 1), patch = Fin 0\<rparr>" by simp
    have "parseVersion (version_string \<lparr>major = Fin a, minor = Fin (b + 1), patch = Fin 0\<rparr>)
            = Inr \<lparr>major = Fin a, minor = Fin (b + 1), patch = Fin 0\<rparr>"
      using a h by (intro parseVersion_version_string) simp_all
    then show "\<exists>info. calculateNextVersion currentVersion changesets = Inr info
               \<and> next info = version_string \<lparr>major = Fin a, minor = Fin (b + 1), patch = Fin 0\<rparr>
               \<and> parseVersion (next info) = Inr \<lparr>major = Fin a, minor = Fin (b + 1), patch = Fin 0\<rparr>"
      by (simp add: calculateNextVersion_nonempty [OF assms ne] b)
  }
qed

lemma dec_value_small:
  "dec_value ''0'' = 0" "dec_value ''1'' = 1" "dec_value ''2'' = 2" "dec_value ''3'' = 3"
  by (simp_all add: dec_value_def digit_val_def)

lemma to_double_digit:
  "to_double 0 = Fin 0" "to_double 1 = Fin 1" "to_double 2 = Fin 2" "to_double 3 = Fin 3"
  by (simp_all add: to_double_small)

lemma ex_version: "parseVersion ''1.0.2'' = Inr \<lparr>major = Fin 1, minor = Fin 0, patch = Fin 2\<rparr>"
proof -
  have "parseVersion (''1'' @ ''.'' @ ''0'' @ ''.'' @ ''2'')
        = Inr \<lparr>major = to_double (int (dec_value ''1'')), minor = to_double (int (dec_value ''0'')),
               patch = to_double (int (dec_value ''2''))\<rparr>"
    by (rule parseVersion_digits) (simp_all add: is_digit_def)
  then show ?thesis by (simp add: dec_value_small to_double_digit)
qed

lemma nat_to_string_small:
  "nat_to_string 0 = ''0''" "nat_to_string 1 = ''1''" "nat_to_string (Suc 0) = ''1''"
  "nat_to_string 2 = ''2''"
  by (simp_all add: nat_to_string.simps digit_char_def)

lemma number_to_string_digit:
  "number_to_string (Fin 0) = ''0''" "number_to_string (Fin 1) = ''1''"
  "number_to_string (Fin 2) = ''2''"
  by (simp_all add: number_to_string_small nat_to_string_small)

lemma counts_some_pos:
  assumes "cs \<noteq> []"
  shows "js_gt (major (foldl count_change \<lparr>major = Fin 0, minor = Fin 0, patch = Fin 0\<rparr> cs)) (Fin 0)
       \<or> js_gt (minor (foldl count_change \<lparr>major = Fin 0, minor = Fin 0, patch = Fin 0\<rparr> cs)) (Fin 0)
       \<or> js_gt (patch (foldl count_change \<lparr>major = Fin 0, minor = Fin 0, patch = Fin 0\<rparr> cs)) (Fin 0)"
proof -
  from assms obtain c r where "cs = c # r" by (cases cs) auto
  then have "c \<in> set cs" by simp
  then show ?thesis
    unfolding counts_major_pos counts_minor_pos counts_patch_pos
    by (cases "type c") blast+
qed

lemma bump_greater:
  assumes "js_gt (major k) (Fin 0) \<or> js_gt (minor k) (Fin 0) \<or> js_gt (patch k) (Fin 0)"
    and "0 \<le> a" "a < 2 ^ 53" "0 \<le> b" "b < 2 ^ 53" "0 \<le> c" "c < 2 ^ 53"
  shows "\<exists>a' b' c'. bump \<lparr>major = Fin a, minor = Fin b, patch = Fin c\<rparr> k
                      = \<lparr>major = Fin a', minor = Fin b', patch = Fin c'\<rparr>
           \<and> 0 \<le> a' \<and> a' \<le> 2 ^ 53 \<and> 0 \<le> b' \<and> b' \<le> 2 ^ 53 \<and> 0 \<le> c' \<and> c' \<le> 2 ^ 53
           \<and> (a < a' \<or> (a = a' \<and> b < b') \<or> (a = a' \<and> b = b' \<and> c < c'))"
proof -
  let ?p = "\<lparr>major = Fin a, minor = Fin b, patch = Fin c\<rparr>"
  consider "js_gt (major k) (Fin 0)"
    | "\<not> js_gt (major k) (Fin 0)" "js_gt (minor k) (Fin 0)"
    | "\<not> js_gt (major k) (Fin 0)" "\<not> js_gt (minor k) (Fin 0)" "js_gt (patch k) (Fin 0)"
    using assms(1) by blast
  then show ?thesis
  proof cases
    case 1
    then have "bump ?p k = \<lparr>major = Fin (a + 1), minor = Fin 0, patch = Fin 0\<rparr>"
      using assms by (intro bump_major) simp_all
    with assms show ?thesis by simp
  next
    case 2
    then have "bump ?p k = \<lparr>major = major ?p, minor = Fin (b + 1), patch = Fin 0\<rparr>"
      using assms by (intro bump_minor) simp_all
    with assms show ?thesis by simp
  next
    case 3
    then have "bump ?p k = \<lparr>major = major ?p, minor = minor ?p, patch = Fin (c + 1)\<rparr>"
      using assms by (intro bump_patch) simp_all
    with assms show ?thesis by simp
  qed
qed

lemma compareVersions_greater:
  assumes "parseVersion v1 = Inr \<lparr>major = Fin a', minor = Fin b', patch = Fin c'\<rparr>"
    and "parseVersion v2 = Inr \<lparr>major = Fin a, minor = Fin b, patch = Fin c\<rparr>"
    and "0 \<le> a'" "a' \<le> 2 ^ 53" "0 \<le> b'" "b' \<le> 2 ^ 53" "0 \<le> c'" "c' \<le> 2 ^ 53"
    and "0 \<le> a" "a \<le> 2 ^ 53" "0 \<le> b" "b \<le> 2 ^ 53" "0 \<le> c" "c \<le> 2 ^ 53"
    and "a < a' \<or> (a = a' \<and> b < b') \<or> (a = a' \<and> b = b' \<and> c < c')"
  shows "\<exists>d. compareVersions v1 v2 = Inr (Fin d) \<and> 0 < d"
proof -
  have s: "js_sub (Fin a') (Fin a) = Fin (a' - a)" "js_sub (Fin b') (Fin b) = Fin (b' - b)"
    "js_sub (Fin c') (Fin c) = Fin (c' - c)"
    using assms by (simp_all add: js_sub_small)
  show ?thesis
    using assms(15) by (auto simp: compareVersions_def assms(1,2) js_neq_def s)
qed

text \<open>
  Claim C3, as amended. For every current version that parses and every changeset list,
  \<open>calculateNextVersion\<close> returns; the next version is the current string with
  \<open>hasChanges\<close> false if and only if the list is empty; for a non-empty list
  \<open>hasChanges\<close> is true, and when the three components of the current version are below
  \<open>2 ^ 53\<close> the next version differs from the current one and \<open>compareVersions\<close> of next
  against current is positive.
\<close>

theorem calculateNextVersion_changes:
  assumes "parseVersion currentVersion = Inr parsed"
  shows "\<exists>info. calculateNextVersion currentVersion changesets = Inr info
           \<and> ((next info = currentVersion \<and> \<not> hasChanges info) \<longleftrightarrow> changesets = [])
           \<and> (changesets \<noteq> [] \<longrightarrow> hasChanges info)
           \<and> (changesets \<noteq> [] \<and> parsed = \<lparr>major = Fin a, minor = Fin b, patch = Fin c\<rparr>
                \<and> a < 2 ^ 53 \<and> b < 2 ^ 53 \<and> c < 2 ^ 53 \<longrightarrow>
                 next info \<noteq> currentVersion
                 \<and> (\<exists>d. compareVersions (next info) currentVersion = Inr (Fin d) \<and> 0 < d))"
proof (cases "changesets = []")
  case True
  with assms show ?thesis by (simp add: calculateNextVersion_def)
next
  case False
  let ?k = "foldl count_change \<lparr>major = Fin 0, minor = Fin 0, patch = Fin 0\<rparr> changesets"
  let ?b = "bump parsed ?k"
  have main: "version_string ?b \<noteq> currentVersion
       \<and> (\<exists>d. compareVersions (version_string ?b) currentVersion = Inr (Fin d) \<and> 0 < d)"
    if h: "parsed = \<lparr>major = Fin a, minor = Fin b, patch = Fin c\<rparr>" "a < 2 ^ 53" "b < 2 ^ 53" "c < 2 ^ 53"
  proof -
    from parseVersion_nonneg [OF assms, of a b c] h(1)
    have nn: "0 \<le> a" "0 \<le> b" "0 \<le> c" by simp_all
    from bump_greater [OF counts_some_pos [OF False] nn(1) h(2) nn(2) h(3) nn(3) h(4)]
    obtain a' b' c' where b: "?b = \<lparr>major = Fin a', minor = Fin b', patch = Fin c'\<rparr>"
      and bd: "0 \<le> a'" "a' \<le> 2 ^ 53" "0 \<le> b'" "b' \<le> 2 ^ 53" "0 \<le> c'" "c' \<le> 2 ^ 53"
      and gt: "a < a' \<or> (a = a' \<and> b < b') \<or> (a = a' \<and> b = b' \<and> c < c')"
      unfolding h(1) by blast
    have pb: "parseVersion (version_string ?b) = Inr \<lparr>major = Fin a', minor = Fin b', patch = Fin c'\<rparr>"
      unfolding b using bd by (intro parseVersion_version_string)
    have pc: "parseVersion currentVersion = Inr \<lparr>major = Fin a, minor = Fin b, patch = Fin c\<rparr>"
      using assms h(1) by simp
    have le: "a \<le> 2 ^ 53" "b \<le> 2 ^ 53" "c \<le> 2 ^ 53" using h(2-4) by simp_all
    have cmp: "\<exists>d. compareVersions (version_string ?b) currentVersion = Inr (Fin d) \<and> 0 < d"
      by (rule compareVersions_greater [OF pb pc bd nn(1) le(1) nn(2) le(2) nn(3) le(3) gt])
    have "version_string ?b \<noteq> currentVersion"
    proof
      assume "version_string ?b = currentVersion"
      with pb pc have "a' = a \<and> b' = b \<and> c' = c" by simp
      with gt show False by simp
    qed
    with cmp show ?thesis by simp
  qed
  show ?thesis
    unfolding calculateNextVersion_nonempty [OF assms False] using False main by simp
qed

lemma to_double_saturates: "to_double 9007199254740993 = Fin 9007199254740992"
proof -
  have "(9007199254740992::nat) < 2 ^ 1024" by simp
  then show ?thesis by (simp add: to_double_def round_nat_saturates Let_def)
qed

lemma nat_to_string_top: "nat_to_string 9007199254740992 = ''9007199254740992''"
  by (simp add: nat_to_string.simps digit_char_def)

lemma dec_value_top: "dec_value ''9007199254740992'' = 9007199254740992"
  by (simp add: dec_value_def digit_val_def)

lemma number_to_string_top: "number_to_string (Fin 9007199254740992) = ''9007199254740992''"
  by (simp add: number_to_string_small nat_to_string_top)

lemma top_version:
  "parseVersion ''9007199254740992.0.0''
     = Inr \<lparr>major = Fin 9007199254740992, minor = Fin 0, patch = Fin 0\<rparr>"
proof -
  have "parseVersion (''9007199254740992'' @ ''.'' @ ''0'' @ ''.'' @ ''0'')
        = Inr \<lparr>major = to_double (int (dec_value ''9007199254740992'')),
               minor = to_double (int (dec_value ''0'')), patch = to_double (int (dec_value ''0''))\<rparr>"
    by (rule parseVersion_digits) (simp_all add: is_digit_def)
  then show ?thesis by (simp add: dec_value_small dec_value_top to_double_small)
qed

lemma top_patch_version:
  "parseVersion ''0.0.9007199254740992''
     = Inr \<lparr>major = Fin 0, minor = Fin 0, patch = Fin 9007199254740992\<rparr>"
proof -
  have "parseVersion (''0'' @ ''.'' @ ''0'' @ ''.'' @ ''9007199254740992'')
        = Inr \<lparr>major = to_double (int (dec_value ''0'')),
               minor = to_double (int (dec_value ''0'')),
               patch = to_double (int (dec_value ''9007199254740992''))\<rparr>"
    by (rule parseVersion_digits) (simp_all add: is_digit_def)
  then show ?thesis by (simp add: dec_value_small dec_value_top to_double_small)
qed

text \<open>
  Claim C1 as stated fails. The components of a version are doubles, and at
  \<open>2 ^ 53 = 9007199254740992\<close> adding one gives the same number: the version
  \<open>9007199254740992.0.0\<close> parses, and with one major changeset the next version is
  \<open>9007199254740992.0.0\<close> again, not the major component plus one.
\<close>

theorem calculateNextVersion_major_counterexample:
  "parseVersion ''9007199254740992.0.0''
     = Inr \<lparr>major = Fin 9007199254740992, minor = Fin 0, patch = Fin 0\<rparr>
   \<and> calculateNextVersion ''9007199254740992.0.0''
       [\<lparr>cs_id = ''brave-lions-run'', type = Major, summary = ''drop old api'', packages = None,
          author = None, pr = None, createdAt = ''2024-01-03T00:00:00.000Z''\<rparr>]
     = Inr \<lparr>current = ''9007199254740992.0.0'', next = ''9007199254740992.0.0'',
            hasChanges = True,
            changesByType = \<lparr>major = Fin 1, minor = Fin 0, patch = Fin 0\<rparr>\<rparr>"
proof -
  have v: "version_string \<lparr>major = Fin 9007199254740992, minor = Fin 0, patch = Fin 0\<rparr>
             = ''9007199254740992.0.0''"
    by (simp add: version_string_def number_to_string_top number_to_string_digit)
  show ?thesis
    by (simp add: top_version calculateNextVersion_def count_change_def bump_def js_gt_def
        to_double_digit to_double_saturates v)
qed

text \<open>
  Claim C3 as stated fails. For the current version \<open>0.0.9007199254740992\<close> and one
  patch changeset, the patch component plus one is the same double: the next version is the
  current one although \<open>hasChanges\<close> is true, and the comparison of the two is 0.
\<close>

theorem calculateNextVersion_unchanged_counterexample:
  "calculateNextVersion ''0.0.9007199254740992''
       [\<lparr>cs_id = ''calm-owls-sing'', type = Patch, summary = ''fix login'', packages = None,
          author = None, pr = None, createdAt = ''2024-01-02T00:00:00.000Z''\<rparr>]
     = Inr \<lparr>current = ''0.0.9007199254740992'', next = ''0.0.9007199254740992'',
            hasChanges = True,
            changesByType = \<lparr>major = Fin 0, minor = Fin 0, patch = Fin 1\<rparr>\<rparr>
   \<and> compareVersions ''0.0.9007199254740992'' ''0.0.9007199254740992'' = Inr (Fin 0)"
proof -
  have v: "version_string \<lparr>major = Fin 0, minor = Fin 0, patch = Fin 9007199254740992\<rparr>
             = ''0.0.9007199254740992''"
    by (simp add: version_string_def number_to_string_top number_to_string_digit)
  have c: "compareVersions ''0.0.9007199254740992'' ''0.0.9007199254740992'' = Inr (Fin 0)"
    by (simp add: compareVersions_def top_patch_version js_neq_def js_sub_def to_double_digit)
  show ?thesis
    by (simp add: c top_patch_version calculateNextVersion_def count_change_def bump_def js_gt_def
        to_double_digit to_double_saturates v)
qed

theorem calculateNextVersion_precedence_witness:
  "(\<exists>info. calculateNextVersion ''1.0.2''
       [\<lparr>cs_id = ''happy-cats-dance'', type = Minor, summary = ''dark mode'', packages = None,
          author = None, pr = None, createdAt = ''2024-01-01T00:00:00.000Z''\<rparr>,
        \<lparr>cs_id = ''calm-owls-sing'', type = Patch, summary = ''fix login'', packages = None,
          author = None, pr = None, createdAt = ''2024-01-02T00:00:00.000Z''\<rparr>] = Inr info
      \<and> next info = ''1.1.0''
      \<and> parseVersion (next info) = Inr \<lparr>major = Fin 1, minor = Fin 1, patch = Fin 0\<rparr>)
   \<and> (\<exists>info. calculateNextVersion ''1.0.2''
       [\<lparr>cs_id = ''calm-owls-sing'', type = Patch, summary = ''fix login'', packages = None,
          author = None, pr = None, createdAt = ''2024-01-02T00:00:00.000Z''\<rparr>,
        \<lparr>cs_id = ''brave-lions-run'', type = Major, summary = ''drop old api'', packages = None,
          author = None, pr = None, createdAt = ''2024-01-03T00:00:00.000Z''\<rparr>] = Inr info
      \<and> next info = ''2.0.0''
      \<and> parseVersion (next info) = Inr \<lparr>major = Fin 2, minor = Fin 0, patch = Fin 0\<rparr>)"
proof -
  have p: "parseVersion ''1.0.2'' = Inr \<lparr>major = Fin 1, minor = Fin 0, patch = Fin 2\<rparr>"
    by (rule ex_version)
  have v1: "version_string \<lparr>major = Fin 1, minor = Fin 1, patch = Fin 0\<rparr> = ''1.1.0''"
    by (simp add: version_string_def number_to_string_digit)
  have v2: "version_string \<lparr>major = Fin 2, minor = Fin 0, patch = Fin 0\<rparr> = ''2.0.0''"
    by (simp add: version_string_def number_to_string_digit)
  show ?thesis
    using calculateNextVersion_precedence [OF p, of
        "[\<lparr>cs_id = ''happy-cats-dance'', type = Minor, summary = ''dark mode'', packages = None,
          author = None, pr = None, createdAt = ''2024-01-01T00:00:00.000Z''\<rparr>,
        \<lparr>cs_id = ''calm-owls-sing'', type = Patch, summary = ''fix login'', packages = None,
          author = None, pr = None, createdAt = ''2024-01-02T00:00:00.000Z''\<rparr>]" 1 0]
      calculateNextVersion_precedence [OF p, of
        "[\<lparr>cs_id = ''calm-owls-sing'', type = Patch, summary = ''fix login'', packages = None,
          author = None, pr = None, createdAt = ''2024-01-02T00:00:00.000Z''\<rparr>,
        \<lparr>cs_id = ''brave-lions-run'', type = Major, summary = ''drop old api'', packages = None,
          author = None, pr = None, createdAt = ''2024-01-03T00:00:00.000Z''\<rparr>]" 1 0]
    by (simp add: v1 v2)
qed

theorem calculateNextVersion_changes_witness:
  "(\<exists>info. calculateNextVersion ''1.0.2'' [] = Inr info \<and> next info = ''1.0.2'' \<and> \<not> hasChanges info)
   \<and> (\<exists>info. calculateNextVersion ''1.0.2''
        [\<lparr>cs_id = ''calm-owls-sing'', type = Patch, summary = ''fix login'', packages = None,
          author = None, pr = None, createdAt = ''2024-01-02T00:00:00.000Z''\<rparr>] = Inr info
        \<and> hasChanges info \<and> next info \<noteq> ''1.0.2''
        \<and> (\<exists>d. compareVersions (next info) ''1.0.2'' = Inr (Fin d) \<and> 0 < d))"
proof -
  have p: "parseVersion ''1.0.2'' = Inr \<lparr>major = Fin 1, minor = Fin 0, patch = Fin 2\<rparr>"
    by (rule ex_version)
  show ?thesis
    using calculateNextVersion_changes [OF p, of "[]" 1 0 2]
      calculateNextVersion_changes [OF p, of
        "[\<lparr>cs_id = ''calm-owls-sing'', type = Patch, summary = ''fix login'', packages = None,
          author = None, pr = None, createdAt = ''2024-01-02T00:00:00.000Z''\<rparr>]" 1 0 2]
    by auto
qed

text \<open>
  Rounding, the exponent form and overflow, on examples: \<open>parseInt\<close> reads
  \<open>9007199254740993\<close> as \<open>2 ^ 53\<close>; \<open>10 ^ 21\<close> is written \<open>1e+21\<close>, which \<open>parseInt\<close>
  reads back as 1; \<open>2 ^ 1024\<close> is beyond the doubles.
\<close>

lemma parseInt10_rounds: "parseInt10 ''9007199254740993'' = Fin 9007199254740992"
proof -
  have "parseInt10 ''9007199254740993'' = to_double (int (dec_value ''9007199254740993''))"
    by (rule parseInt10_digits) (simp_all add: is_digit_def)
  also have "dec_value ''9007199254740993'' = 9007199254740993"
    by (simp add: dec_value_def digit_val_def)
  finally show ?thesis by (simp add: to_double_saturates)
qed

lemma bit_length_sextillion: "bit_length 1000000000000000000000 = 70"
  by (simp add: bit_length.simps)

lemma round_nat_sextillion: "round_nat 1000000000000000000000 = 1000000000000000000000"
  by (simp add: round_nat_def bit_length_sextillion Let_def)


lemma shortest_first:
  assumes "digits_for a 1 = Some v"
  shows "shortest a = v"
proof -
  have "1 < Suc (decimal_digits a)" by (simp add: decimal_digits_def nat_to_string_nonempty)
  then have "[1..<Suc (decimal_digits a)] = 1 # [Suc 1..<Suc (decimal_digits a)]"
    by (rule upt_conv_Cons)
  then show ?thesis unfolding shortest_def by (simp only: List.map_filter_simps assms) simp
qed

lemma nat_to_string_sextillion:
  "nat_to_string 1000000000000000000000 = ''1000000000000000000000''"
  by (simp add: nat_to_string.simps digit_char_def)

lemma round_nat_two_sextillion: "round_nat 2000000000000000000000 = 2000000000000000000000"
  by (simp add: round_nat_def bit_length.simps Let_def)

lemma shortest_sextillion: "shortest 1000000000000000000000 = 1000000000000000000000"
  by (rule shortest_first)
    (simp add: digits_for_def decimal_digits_def nat_to_string_sextillion Let_def
      round_nat_sextillion round_nat_two_sextillion)

lemma number_to_string_exponent: "number_to_string (Fin 1000000000000000000000) = ''1e+21''"
  by (simp add: number_to_string_def render_nat_def shortest_sextillion nat_to_string_sextillion
      Let_def strip_zeros_def nat_to_string.simps digit_char_def)

lemma parseInt10_exponent: "parseInt10 ''1e+21'' = Fin 1"
proof -
  have "trimStart ''1e+21'' = ''1e+21''" by (rule trimStart_digit) (simp add: is_digit_def)
  then show ?thesis
    by (simp add: parseInt10_def Let_def is_digit_def dec_value_small to_double_digit)
qed

lemma bit_length_power2: "bit_length (2 ^ n) = Suc n"
proof (induction n)
  case 0
  show ?case by (simp add: bit_length.simps)
next
  case (Suc n)
  have "bit_length (2 ^ Suc n) = Suc (bit_length (2 ^ Suc n div 2))"
    by (subst bit_length.simps) simp
  with Suc show ?case by simp
qed

lemma round_nat_power2:
  assumes "53 < n"
  shows "round_nat (2 ^ n) = 2 ^ n"
proof -
  let ?e = "n - 52"
  have n: "n = ?e + 52" using assms by simp
  have p: "(2::nat) ^ n = 2 ^ 52 * 2 ^ ?e" by (subst n) (simp only: power_add mult.commute)
  have "(2::nat) ^ 53 < 2 ^ n" using assms by (intro power_strict_increasing) simp_all
  then have big: "\<not> (2::nat) ^ n \<le> 2 ^ 53" by simp
  have e: "bit_length (2 ^ n) - 53 = ?e" by (simp add: bit_length_power2)
  have q: "(2::nat) ^ n div 2 ^ ?e = 2 ^ 52" "(2::nat) ^ n mod 2 ^ ?e = 0"
    by (simp_all only: p) simp_all
  have ev: "even ((2::nat) ^ 52)" by simp
  show ?thesis
    unfolding round_nat_def Let_def e q using big ev by (simp add: p)
qed

lemma to_double_overflow: "to_double (2 ^ 1024) = PosInfinity"
proof -
  have "round_nat (2 ^ 1024) = 2 ^ 1024" by (rule round_nat_power2) simp
  then have "round_nat (nat \<bar>2 ^ 1024\<bar>) = 2 ^ 1024" by simp
  then show ?thesis unfolding to_double_def Let_def by (simp only:) simp
qed
























section \<open>Changelog insertion: proofs\<close>

lemma join_with_Cons: "join_with sep ((x # p) # ps) = x # join_with sep (p # ps)"
  by (cases ps) simp_all

lemma join_split: "join_with [c] (split_on c s) = s"
proof (induction s)
  case Nil
  then show ?case by simp
next
  case (Cons x s)
  obtain p ps where sp: "split_on c s = p # ps"
    using split_on_nonempty [of c s] by (cases "split_on c s") auto
  show ?case
  proof (cases "x = c")
    case True
    with Cons sp show ?thesis by simp
  next
    case False
    with Cons sp show ?thesis by (simp add: join_with_Cons)
  qed
qed

lemma split_on_no_sep_elems: "\<forall>l \<in> set (split_on c s). c \<notin> set l"
proof (induction s)
  case Nil
  then show ?case by simp
next
  case (Cons x s)
  obtain p ps where sp: "split_on c s = p # ps"
    using split_on_nonempty [of c s] by (cases "split_on c s") auto
  with Cons show ?case by auto
qed

lemma join_with_append:
  "xs \<noteq> [] \<Longrightarrow> ys \<noteq> [] \<Longrightarrow> join_with sep (xs @ ys) = join_with sep xs @ sep @ join_with sep ys"
proof (induction sep xs rule: join_with.induct)
  case (1 sep)
  then show ?case by simp
next
  case (2 sep x)
  then show ?case by (cases ys) simp_all
next
  case (3 sep x y ys')
  then show ?case by simp
qed

lemma split_join_lines:
  assumes "\<forall>l \<in> set xs. c \<notin> set l" and "xs \<noteq> []"
  shows "split_on c (join_with [c] xs) = xs"
  using assms
proof (induction "[c]" xs rule: join_with.induct)
  case 1
  then show ?case by simp
next
  case (2 x)
  then show ?case by (simp add: split_on_no_sep)
next
  case (3 x y ys)
  have "split_on c (x @ c # join_with [c] (y # ys)) = split_on c x @ split_on c (join_with [c] (y # ys))"
    by (rule split_on_append)
  with 3 show ?case by (simp add: split_on_no_sep)
qed

lemma skip_preamble_run:
  assumes "\<forall>l \<in> set P. is_preamble l" and "R = [] \<or> \<not> is_preamble (hd R)"
  shows "skip_preamble (X @ P @ R) (length X) = length X + length P"
  using assms
proof (induction P arbitrary: X)
  case Nil
  then show ?case
    by (subst skip_preamble.simps) (cases R; simp add: nth_append)
next
  case (Cons p P)
  have "skip_preamble ((X @ [p]) @ P @ R) (length (X @ [p])) = length (X @ [p]) + length P"
    using Cons.prems by (intro Cons.IH) simp_all
  moreover have "is_preamble p" using Cons.prems by simp
  ultimately show ?case
    by (subst skip_preamble.simps) (simp add: nth_append)
qed

lemma find_insert_index_none:
  assumes "\<forall>l \<in> set A. \<not> is_title l"
  shows "find_insert_index (X @ A) (length X) = None"
  using assms
proof (induction A arbitrary: X)
  case Nil
  then show ?case by (subst find_insert_index.simps) simp
next
  case (Cons a A)
  have "find_insert_index ((X @ [a]) @ A) (length (X @ [a])) = None"
    using Cons.prems by (intro Cons.IH) simp
  moreover have "\<not> is_title a" using Cons.prems by simp
  ultimately show ?case
    by (subst find_insert_index.simps) (simp add: nth_append)
qed

lemma find_insert_index_title:
  assumes "\<forall>l \<in> set A. \<not> is_title l" and "is_title t"
  shows "find_insert_index (X @ A @ t # rest) (length X)
           = Some (skip_preamble (X @ A @ t # rest) (length X + length A + 1))"
  using assms
proof (induction A arbitrary: X)
  case Nil
  then show ?case by (subst find_insert_index.simps) (simp add: nth_append)
next
  case (Cons a A)
  have "find_insert_index ((X @ [a]) @ A @ t # rest) (length (X @ [a]))
          = Some (skip_preamble ((X @ [a]) @ A @ t # rest) (length (X @ [a]) + length A + 1))"
    using Cons.prems by (intro Cons.IH) simp_all
  moreover have "\<not> is_title a" using Cons.prems by simp
  ultimately show ?case
    by (subst find_insert_index.simps) (simp add: nth_append)
qed

lemma find_insert_index_decomp:
  assumes "\<forall>l \<in> set A. \<not> is_title l" and "is_title t"
    and "\<forall>l \<in> set P. is_preamble l" and "R = [] \<or> \<not> is_preamble (hd R)"
  shows "find_insert_index (A @ t # P @ R) 0 = Some (length A + 1 + length P)"
proof -
  have "find_insert_index ([] @ A @ t # P @ R) (length ([] :: string list))
          = Some (skip_preamble ([] @ A @ t # P @ R) (length ([] :: string list) + length A + 1))"
    by (rule find_insert_index_title [OF assms(1,2)])
  moreover have "skip_preamble ((A @ [t]) @ P @ R) (length (A @ [t])) = length (A @ [t]) + length P"
    by (rule skip_preamble_run [OF assms(3,4)])
  ultimately show ?thesis by simp
qed

lemma lines_decomp:
  assumes "list_ex is_title ls"
  shows "\<exists>A t P R. ls = A @ t # P @ R \<and> (\<forall>l \<in> set A. \<not> is_title l) \<and> is_title t
           \<and> (\<forall>l \<in> set P. is_preamble l) \<and> (R = [] \<or> \<not> is_preamble (hd R))"
proof -
  let ?A = "takeWhile (\<lambda>l. \<not> is_title l) ls"
  let ?B = "dropWhile (\<lambda>l. \<not> is_title l) ls"
  from assms have "?B \<noteq> []" by (auto simp: list_ex_iff)
  then obtain t rest where B: "?B = t # rest" by (cases ?B) auto
  then have t: "is_title t" using hd_dropWhile [of "\<lambda>l. \<not> is_title l" ls] by auto
  let ?P = "takeWhile is_preamble rest"
  let ?R = "dropWhile is_preamble rest"
  have "ls = ?A @ ?B" by simp
  also have "\<dots> = ?A @ t # ?P @ ?R" by (simp add: B)
  finally have "ls = ?A @ t # ?P @ ?R" .
  moreover have "\<forall>l \<in> set ?A. \<not> is_title l" by (auto dest: set_takeWhileD)
  moreover have "\<forall>l \<in> set ?P. is_preamble l" by (auto dest: set_takeWhileD)
  moreover have "?R = [] \<or> \<not> is_preamble (hd ?R)" using hd_dropWhile [of is_preamble rest] by auto
  ultimately show ?thesis using t by blast
qed

lemma ws_last_whole:
  assumes "ws_last s = length s" and "s \<noteq> []"
  shows "hd s \<in> set ws_leads"
proof -
  from assms obtain c r where s: "s = c # r" by (cases s) auto
  have "ws_last s \<noteq> 0" using assms by simp
  then consider "last s \<in> set ws1" "ws_last s = 1"
    | "drop (length s - 2) s \<in> set ws2" "ws_last s = 2"
    | "drop (length s - 3) s \<in> set ws3" "ws_last s = 3"
    by (auto simp: ws_last_def Let_def split: if_splits)
  then have "hd s \<in> set ws1 \<union> hd ` set ws2 \<union> hd ` set ws3"
  proof cases
    case 1
    with assms s have "r = []" by simp
    with 1 s show ?thesis by simp
  next
    case 2
    with assms have "s \<in> set ws2" by simp
    then show ?thesis by blast
  next
    case 3
    with assms have "s \<in> set ws3" by simp
    then show ?thesis by blast
  qed
  then show ?thesis using ws_leads_sub by blast
qed

lemma trimEnd_keeps_head:
  assumes "c \<notin> set ws_leads"
  shows "trimEnd (c # r) \<noteq> []"
proof (induction "length r" arbitrary: r rule: less_induct)
  case less
  let ?s = "c # r"
  show ?case
  proof (cases "ws_last ?s = 0")
    case True
    then show ?thesis by (subst trimEnd.simps) simp
  next
    case False
    have le: "ws_last ?s \<le> length ?s" by (rule ws_last_le)
    have "ws_last ?s \<noteq> length ?s" using ws_last_whole [of ?s] assms by auto
    with le have lt: "ws_last ?s < length ?s" by simp
    then have "take (length ?s - ws_last ?s) ?s = c # take (length r - ws_last ?s) r"
      by (simp add: take_Cons' )
    moreover have "length (take (length r - ws_last ?s) r) < length r" using False lt by simp
    then have "trimEnd (c # take (length r - ws_last ?s) r) \<noteq> []" by (rule less)
    ultimately show ?thesis using False by (subst trimEnd.simps) simp
  qed
qed

lemma trim_nonblank: "c \<notin> set ws_leads \<Longrightarrow> trim (c # r) \<noteq> []"
  by (simp add: trim_def trimStart_no_lead trimEnd_keeps_head)

lemma hash_not_lead: "CHR ''#'' \<notin> set ws_leads"
  by (simp add: ws_leads_def)

lemma heading_not_preamble: "\<not> is_preamble (CHR ''#'' # r)"
  by (simp add: is_preamble_def trim_nonblank hash_not_lead startsWith_def
      preamble_prefix1_def preamble_prefix2_def)

lemma blank_is_preamble: "is_preamble []"
proof -
  have "trimStart [] = []" by (subst trimStart.simps) (simp add: ws_head_def)
  moreover have "trimEnd [] = []" by (subst trimEnd.simps) (simp add: ws_last_def)
  ultimately show ?thesis by (simp add: is_preamble_def trim_def)
qed

lemma split_join_concat:
  "xs \<noteq> [] \<Longrightarrow> split_on c (join_with [c] xs) = concat (map (split_on c) xs)"
proof (induction "[c]" xs rule: join_with.induct)
  case 1
  then show ?case by simp
next
  case (2 x)
  then show ?case by simp
next
  case (3 x y ys)
  have "split_on c (x @ c # join_with [c] (y # ys)) = split_on c x @ split_on c (join_with [c] (y # ys))"
    by (rule split_on_append)
  with 3 show ?case by simp
qed

lemma concat_map_split_id:
  "\<forall>l \<in> set xs. c \<notin> set l \<Longrightarrow> concat (map (split_on c) xs) = xs"
  by (induction xs) (simp_all add: split_on_no_sep)

lemma join_with_Cons_if:
  "join_with sep (x # xs) = x @ (if xs = [] then [] else sep @ join_with sep xs)"
  by (cases xs) simp_all

lemma change_lines_no_newline:
  assumes "newline \<notin> set heading" and "\<forall>c \<in> set cs. newline \<notin> set (summary c)"
  shows "\<forall>l \<in> set (change_lines heading cs). newline \<notin> set l"
  using assms by (auto simp: change_lines_def newline_def)

lemma headings_no_newline:
  "newline \<notin> set breaking_heading" "newline \<notin> set features_heading" "newline \<notin> set fixes_heading"
  by (simp_all add: newline_def breaking_heading_def features_heading_def fixes_heading_def)

lemma section_lines_no_newline:
  assumes "newline \<notin> set ver" "newline \<notin> set today"
    and "\<forall>c \<in> set css. newline \<notin> set (summary c)"
  shows "\<forall>l \<in> set (section_lines (createChangelogEntry ver css today)). newline \<notin> set l"
proof -
  have h: "newline \<notin> set (''## v'' @ ver @ '' ('' @ today @ '')'')"
    using assms(1,2) by (simp add: newline_def)
  have "\<forall>l \<in> set (change_lines hd' (filter Q css)). newline \<notin> set l"
    if "newline \<notin> set hd'" for hd' Q
    using that assms(3) by (intro change_lines_no_newline) simp_all
  with h headings_no_newline show ?thesis
    by (auto simp: section_lines_def createChangelogEntry_def)
qed

lemma change_lines_no_title:
  assumes "\<not> is_title heading"
  shows "\<forall>l \<in> set (change_lines heading cs). \<not> is_title l"
  using assms by (auto simp: change_lines_def is_title_def startsWith_def)

lemma headings_no_title:
  "\<not> is_title breaking_heading" "\<not> is_title features_heading" "\<not> is_title fixes_heading"
  by (simp_all add: is_title_def startsWith_def breaking_heading_def features_heading_def
      fixes_heading_def)

lemma section_lines_no_title: "\<forall>l \<in> set (section_lines entry). \<not> is_title l"
proof -
  have "\<not> is_title (''## v'' @ v)" for v by (simp add: is_title_def startsWith_def)
  moreover have "\<not> is_title []" by (simp add: is_title_def startsWith_def)
  ultimately show ?thesis
    using change_lines_no_title headings_no_title
    by (auto simp: section_lines_def)
qed

lemma section_lines_head: "\<exists>r rest. section_lines entry = (CHR ''#'' # r) # rest"
  by (simp add: section_lines_def)

lemma insertNewEntry_no_title:
  assumes "\<not> has_title doc"
  shows "insertNewEntry doc e = e @ [newline] @ doc"
proof -
  have "\<forall>l \<in> set (split_on newline doc). \<not> is_title l"
    using assms by (simp add: has_title_def list_ex_iff)
  then have "find_insert_index ([] @ split_on newline doc) (length ([] :: string list)) = None"
    by (rule find_insert_index_none)
  then show ?thesis by (simp add: insertNewEntry_def)
qed

lemma insertNewEntry_title:
  assumes "split_on newline doc = A @ t # P @ R"
    and "\<forall>l \<in> set A. \<not> is_title l" and "is_title t"
    and "\<forall>l \<in> set P. is_preamble l" and "R = [] \<or> \<not> is_preamble (hd R)"
  shows "insertNewEntry doc e = join_with [newline] (A @ t # P @ [[], e] @ R)"
proof -
  have "find_insert_index (split_on newline doc) 0 = Some (length A + 1 + length P)"
    unfolding assms(1) by (rule find_insert_index_decomp [OF assms(2-5)])
  moreover have "take (length A + 1 + length P) (A @ t # P @ R) = A @ t # P" by simp
  moreover have "drop (length A + 1 + length P) (A @ t # P @ R) = R" by simp
  ultimately show ?thesis by (simp add: insertNewEntry_def assms(1))
qed

lemma split_on_head: "x \<noteq> c \<Longrightarrow> \<exists>r rest. split_on c (x # s) = (x # r) # rest"
  by simp

lemma section_starts_with_hash: "\<exists>r. generateChangelogSection entry = CHR ''#'' # r"
proof -
  obtain r rest where "section_lines entry = (CHR ''#'' # r) # rest"
    using section_lines_head by blast
  then show ?thesis by (simp add: generateChangelogSection_def join_with_Cons)
qed

lemma section_no_title:
  assumes "newline \<notin> set ver" "newline \<notin> set today"
    and "\<forall>c \<in> set css. newline \<notin> set (summary c)"
  shows "\<not> has_title (generateChangelogSection (createChangelogEntry ver css today))"
proof -
  let ?entry = "createChangelogEntry ver css today"
  have ne: "section_lines ?entry \<noteq> []" using section_lines_head [of ?entry] by auto
  have "split_on newline (generateChangelogSection ?entry) = section_lines ?entry"
    unfolding generateChangelogSection_def
    by (rule split_join_lines [OF section_lines_no_newline [OF assms] ne])
  then show ?thesis using section_lines_no_title [of ?entry] by (simp add: has_title_def list_ex_iff)
qed

lemma insert_two_entries:
  assumes hd1: "e1 = CHR ''#'' # r"
    and ok: "has_title doc \<or> \<not> has_title e1"
  shows "\<exists>pre gap post. insertNewEntry doc e1 = pre @ e1 @ post
           \<and> insertNewEntry (insertNewEntry doc e1) e2 = pre @ gap @ e2 @ [newline] @ e1 @ post
           \<and> (gap = [] \<or> gap = [newline])"
proof (cases "has_title doc")
  case False
  with ok have nt: "\<not> has_title e1" by simp
  from False have d1: "insertNewEntry doc e1 = e1 @ [newline] @ doc" by (rule insertNewEntry_no_title)
  have "split_on newline (e1 @ newline # doc) = split_on newline e1 @ split_on newline doc"
    by (rule split_on_append)
  then have "split_on newline (insertNewEntry doc e1) = split_on newline e1 @ split_on newline doc"
    by (simp add: d1)
  with False nt have "\<not> has_title (insertNewEntry doc e1)"
    by (auto simp: has_title_def list_ex_iff)
  then have "insertNewEntry (insertNewEntry doc e1) e2 = e2 @ [newline] @ insertNewEntry doc e1"
    by (rule insertNewEntry_no_title)
  with d1 have "insertNewEntry doc e1 = [] @ e1 @ ([newline] @ doc)
      \<and> insertNewEntry (insertNewEntry doc e1) e2 = [] @ [] @ e2 @ [newline] @ e1 @ ([newline] @ doc)"
    by simp
  then show ?thesis by blast
next
  case True
  then have "list_ex is_title (split_on newline doc)" by (simp add: has_title_def)
  from lines_decomp [OF this]
  obtain A t P R where dec: "split_on newline doc = A @ t # P @ R"
    and A: "\<forall>l \<in> set A. \<not> is_title l" and t: "is_title t"
    and P: "\<forall>l \<in> set P. is_preamble l" and R: "R = [] \<or> \<not> is_preamble (hd R)"
    by blast
  let ?ls1 = "split_on newline e1"
  have "CHR ''#'' \<noteq> newline" by (simp add: newline_def)
  then obtain r1 rest1 where ls1: "?ls1 = (CHR ''#'' # r1) # rest1"
    unfolding hd1 using split_on_head by blast
  have ne: "?ls1 \<noteq> []" by (rule split_on_nonempty)
  have j1: "join_with [newline] ?ls1 = e1" by (rule join_split)
  have nl: "\<forall>l \<in> set (A @ t # P @ R). newline \<notin> set l"
    using split_on_no_sep_elems [of newline doc] by (simp only: dec)
  have d1: "insertNewEntry doc e1 = join_with [newline] (A @ t # P @ [[], e1] @ R)"
    by (rule insertNewEntry_title [OF dec A t P R])
  let ?H = "A @ t # P"
  have nlH: "\<forall>l \<in> set ?H. newline \<notin> set l" and nlR: "\<forall>l \<in> set R. newline \<notin> set l"
    using nl by auto
  have "split_on newline (insertNewEntry doc e1)
          = concat (map (split_on newline) (?H @ [[], e1] @ R))"
    unfolding d1 using split_join_concat [of "?H @ [[], e1] @ R" newline] by simp
  also have "\<dots> = concat (map (split_on newline) ?H) @ [[]] @ ?ls1
                    @ concat (map (split_on newline) R)"
    by simp
  also have "concat (map (split_on newline) ?H) = ?H" by (rule concat_map_split_id [OF nlH])
  also have "concat (map (split_on newline) R) = R" by (rule concat_map_split_id [OF nlR])
  finally have lines1: "split_on newline (insertNewEntry doc e1) = A @ t # (P @ [[]]) @ (?ls1 @ R)"
    by simp
  have P': "\<forall>l \<in> set (P @ [[]]). is_preamble l" using P blank_is_preamble by simp
  have R': "?ls1 @ R = [] \<or> \<not> is_preamble (hd (?ls1 @ R))"
    using heading_not_preamble by (simp add: ls1)
  have d2: "insertNewEntry (insertNewEntry doc e1) e2
              = join_with [newline] (A @ t # (P @ [[]]) @ [[], e2] @ (?ls1 @ R))"
    by (rule insertNewEntry_title [OF lines1 A t P' R'])
  let ?pre = "join_with [newline] (?H @ [[]]) @ [newline]"
  let ?post = "(if R = [] then [] else [newline] @ join_with [newline] R)"
  have a1: "join_with [newline] (A @ t # P @ [[], e1] @ R)
              = join_with [newline] (?H @ [[]]) @ [newline] @ join_with [newline] (e1 # R)"
    using join_with_append [of "?H @ [[]]" "e1 # R" "[newline]"] by simp
  have a2: "join_with [newline] (e1 # R) = e1 @ ?post" by (rule join_with_Cons_if)
  have b1: "join_with [newline] (A @ t # (P @ [[]]) @ [[], e2] @ (?ls1 @ R))
              = join_with [newline] (?H @ [[]]) @ [newline]
                  @ join_with [newline] ([] # e2 # (?ls1 @ R))"
    using join_with_append [of "?H @ [[]]" "[] # e2 # (?ls1 @ R)" "[newline]"] by simp
  have b2: "join_with [newline] ([] # e2 # (?ls1 @ R))
              = [newline] @ e2 @ [newline] @ join_with [newline] (?ls1 @ R)"
    using ne by (cases "?ls1 @ R") simp_all
  have b3: "join_with [newline] (?ls1 @ R) = e1 @ ?post"
  proof (cases "R = []")
    case True
    then show ?thesis by (simp add: j1)
  next
    case False
    with ne show ?thesis by (simp add: join_with_append j1)
  qed
  have "insertNewEntry doc e1 = ?pre @ e1 @ ?post" unfolding d1 a1 a2 by simp
  moreover have "insertNewEntry (insertNewEntry doc e1) e2
                   = ?pre @ [newline] @ e2 @ [newline] @ e1 @ ?post"
    unfolding d2 b1 b2 b3 by simp
  ultimately show ?thesis by blast
qed

text \<open>
  Claim C4, as amended. For every changelog document that has a title line, and for every
  document without one when no line of the section of \<open>version1\<close> starts with
  \<open># Changelog\<close>: adding the entry for \<open>version1\<close> and then an entry for \<open>version2\<close>
  gives a document in which the section of \<open>version2\<close> stands before the section of
  \<open>version1\<close>, separated by one line feed; the text before the insertion point
  (\<open>pre\<close>), the section of \<open>version1\<close> and everything after it (\<open>post\<close>) are the same
  bytes as after the first insertion. A document without a title line gets the new section
  prepended before all its content.
\<close>

theorem addEntry_newest_first:
  assumes "has_title doc
           \<or> \<not> has_title (generateChangelogSection (createChangelogEntry version1 changesets1 today1))"
  shows "(\<exists>pre gap post.
            addEntry version1 changesets1 today1 (Some doc)
              = pre @ generateChangelogSection (createChangelogEntry version1 changesets1 today1) @ post
          \<and> addEntry version2 changesets2 today2
               (Some (addEntry version1 changesets1 today1 (Some doc)))
              = pre @ gap @ generateChangelogSection (createChangelogEntry version2 changesets2 today2)
                  @ [newline]
                  @ generateChangelogSection (createChangelogEntry version1 changesets1 today1) @ post
          \<and> (gap = [] \<or> gap = [newline]))
       \<and> (\<not> has_title doc \<longrightarrow>
            addEntry version2 changesets2 today2 (Some doc)
              = generateChangelogSection (createChangelogEntry version2 changesets2 today2)
                  @ [newline] @ doc)"
proof
  let ?e1 = "generateChangelogSection (createChangelogEntry version1 changesets1 today1)"
  obtain r where hd1: "?e1 = CHR ''#'' # r" using section_starts_with_hash by blast
  have "\<exists>pre gap post.
          insertNewEntry doc ?e1 = pre @ ?e1 @ post
        \<and> insertNewEntry (insertNewEntry doc ?e1)
             (generateChangelogSection (createChangelogEntry version2 changesets2 today2))
            = pre @ gap @ generateChangelogSection (createChangelogEntry version2 changesets2 today2)
                @ [newline] @ ?e1 @ post
        \<and> (gap = [] \<or> gap = [newline])"
    by (rule insert_two_entries [OF hd1 assms])
  then show "\<exists>pre gap post.
            addEntry version1 changesets1 today1 (Some doc)
              = pre @ generateChangelogSection (createChangelogEntry version1 changesets1 today1) @ post
          \<and> addEntry version2 changesets2 today2
               (Some (addEntry version1 changesets1 today1 (Some doc)))
              = pre @ gap @ generateChangelogSection (createChangelogEntry version2 changesets2 today2)
                  @ [newline]
                  @ generateChangelogSection (createChangelogEntry version1 changesets1 today1) @ post
          \<and> (gap = [] \<or> gap = [newline])"
    by (simp add: addEntry_def Let_def)
next
  show "\<not> has_title doc \<longrightarrow>
            addEntry version2 changesets2 today2 (Some doc)
              = generateChangelogSection (createChangelogEntry version2 changesets2 today2)
                  @ [newline] @ doc"
    by (simp add: addEntry_def Let_def insertNewEntry_no_title)
qed

lemma notes_no_title: "\<not> has_title ''notes''"
  by (simp add: has_title_def newline_def is_title_def startsWith_def)

lemma notes_not_preamble: "\<not> is_preamble ''notes''"
proof -
  have "CHR ''n'' \<notin> set ws_leads" by (simp add: ws_leads_def)
  then have "trim ''notes'' \<noteq> []" by (rule trim_nonblank)
  then show ?thesis
    by (simp add: is_preamble_def startsWith_def preamble_prefix1_def preamble_prefix2_def)
qed

text \<open>
  Claim C4 as stated fails. The document \<open>notes\<close> has no title line. The entry for
  version 1.0.0 has one patch changeset whose summary holds a line feed followed by
  \<open># Changelog y\<close>, so the document after the first insertion has a title line, inside
  the section of 1.0.0. The entry for version 1.1.0 is then inserted after that line: in the
  result the section of 1.0.0 comes first and the section of 1.1.0 follows it.
\<close>

theorem addEntry_title_in_summary_counterexample:
  "addEntry ''1.1.0'' [] ''2024-02-01''
     (Some (addEntry ''1.0.0''
        [\<lparr>cs_id = ''calm-owls-sing'', type = Patch,
          summary = ''x'' @ [newline] @ ''# Changelog y'',
          packages = None, author = None, pr = None,
          createdAt = ''2024-01-01T00:00:00.000Z''\<rparr>] ''2024-01-01'' (Some ''notes'')))
   = generateChangelogSection (createChangelogEntry ''1.0.0''
        [\<lparr>cs_id = ''calm-owls-sing'', type = Patch,
          summary = ''x'' @ [newline] @ ''# Changelog y'',
          packages = None, author = None, pr = None,
          createdAt = ''2024-01-01T00:00:00.000Z''\<rparr>] ''2024-01-01'')
     @ [newline, newline]
     @ generateChangelogSection (createChangelogEntry ''1.1.0'' [] ''2024-02-01'')
     @ [newline] @ ''notes''"
proof -
  let ?cs = "\<lparr>cs_id = ''calm-owls-sing'', type = Patch,
          summary = ''x'' @ [newline] @ ''# Changelog y'',
          packages = None, author = None, pr = None,
          createdAt = ''2024-01-01T00:00:00.000Z''\<rparr>"
  let ?e1 = "generateChangelogSection (createChangelogEntry ''1.0.0'' [?cs] ''2024-01-01'')"
  let ?e2 = "generateChangelogSection (createChangelogEntry ''1.1.0'' [] ''2024-02-01'')"
  let ?A = "[''## v1.0.0 (2024-01-01)'', [], fixes_heading, [], ''- x'']"
  have e1: "?e1 = join_with [newline] (?A @ [''# Changelog y'', []])"
    by (simp add: generateChangelogSection_def section_lines_def createChangelogEntry_def
        change_lines_def)
  have d1: "insertNewEntry ''notes'' ?e1 = ?e1 @ [newline] @ ''notes''"
    by (rule insertNewEntry_no_title [OF notes_no_title])
  have nl: "\<forall>l \<in> set (?A @ [''# Changelog y'', [], ''notes'']). newline \<notin> set l"
    by (simp add: newline_def fixes_heading_def)
  have "?e1 @ [newline] @ ''notes'' = join_with [newline] (?A @ [''# Changelog y'', [], ''notes''])"
    unfolding e1 by simp
  then have "split_on newline (?e1 @ [newline] @ ''notes'')
          = ?A @ ''# Changelog y'' # [[]] @ [''notes'']"
    using split_join_lines [OF nl] by simp
  then have "insertNewEntry (?e1 @ [newline] @ ''notes'') ?e2
          = join_with [newline] (?A @ ''# Changelog y'' # [[]] @ [[], ?e2] @ [''notes''])"
  proof (rule insertNewEntry_title)
    show "\<forall>l \<in> set ?A. \<not> is_title l"
      by (simp add: is_title_def startsWith_def fixes_heading_def)
    show "is_title ''# Changelog y''" by (simp add: is_title_def startsWith_def)
    show "\<forall>l \<in> set [[]]. is_preamble l" by (simp add: blank_is_preamble)
    show "[''notes''] = [] \<or> \<not> is_preamble (hd [''notes''])" by (simp add: notes_not_preamble)
  qed
  also have "\<dots> = ?e1 @ [newline, newline] @ ?e2 @ [newline] @ ''notes''"
    unfolding e1 by simp
  finally have "insertNewEntry (insertNewEntry ''notes'' ?e1) ?e2
                  = ?e1 @ [newline, newline] @ ?e2 @ [newline] @ ''notes''"
    unfolding d1 .
  then show ?thesis unfolding addEntry_def Let_def option.case .
qed

theorem addEntry_newest_first_witness:
  "has_title ''# Changelog''
   \<and> (\<exists>pre gap post.
         addEntry ''1.0.0'' [] ''2024-01-01'' (Some ''# Changelog'')
           = pre @ generateChangelogSection (createChangelogEntry ''1.0.0'' [] ''2024-01-01'') @ post
       \<and> addEntry ''1.1.0'' [] ''2024-02-01''
            (Some (addEntry ''1.0.0'' [] ''2024-01-01'' (Some ''# Changelog'')))
           = pre @ gap @ generateChangelogSection (createChangelogEntry ''1.1.0'' [] ''2024-02-01'')
               @ [newline]
               @ generateChangelogSection (createChangelogEntry ''1.0.0'' [] ''2024-01-01'') @ post
       \<and> (gap = [] \<or> gap = [newline]))
   \<and> \<not> has_title ''notes''
   \<and> \<not> has_title (generateChangelogSection (createChangelogEntry ''1.0.0''
               [\<lparr>cs_id = ''calm-owls-sing'', type = Patch, summary = ''fix login'',
                 packages = None, author = None, pr = None,
                 createdAt = ''2024-01-01T00:00:00.000Z''\<rparr>] ''2024-01-01''))
   \<and> (\<exists>pre gap post.
         addEntry ''1.0.0'' [\<lparr>cs_id = ''calm-owls-sing'', type = Patch, summary = ''fix login'',
             packages = None, author = None, pr = None,
             createdAt = ''2024-01-01T00:00:00.000Z''\<rparr>] ''2024-01-01'' (Some ''notes'')
           = pre @ generateChangelogSection (createChangelogEntry ''1.0.0''
               [\<lparr>cs_id = ''calm-owls-sing'', type = Patch, summary = ''fix login'',
                 packages = None, author = None, pr = None,
                 createdAt = ''2024-01-01T00:00:00.000Z''\<rparr>] ''2024-01-01'') @ post
       \<and> addEntry ''1.1.0'' [] ''2024-02-01''
            (Some (addEntry ''1.0.0'' [\<lparr>cs_id = ''calm-owls-sing'', type = Patch,
               summary = ''fix login'', packages = None, author = None, pr = None,
               createdAt = ''2024-01-01T00:00:00.000Z''\<rparr>] ''2024-01-01'' (Some ''notes'')))
           = pre @ gap @ generateChangelogSection (createChangelogEntry ''1.1.0'' [] ''2024-02-01'')
               @ [newline]
               @ generateChangelogSection (createChangelogEntry ''1.0.0''
                   [\<lparr>cs_id = ''calm-owls-sing'', type = Patch, summary = ''fix login'',
                     packages = None, author = None, pr = None,
                     createdAt = ''2024-01-01T00:00:00.000Z''\<rparr>] ''2024-01-01'') @ post
       \<and> (gap = [] \<or> gap = [newline]))
   \<and> addEntry ''1.1.0'' [] ''2024-02-01'' (Some ''notes'')
       = generateChangelogSection (createChangelogEntry ''1.1.0'' [] ''2024-02-01'')
           @ [newline] @ ''notes''"
proof -
  let ?cs = "\<lparr>cs_id = ''calm-owls-sing'', type = Patch, summary = ''fix login'',
          packages = None, author = None, pr = None,
          createdAt = ''2024-01-01T00:00:00.000Z''\<rparr>"
  have t: "has_title ''# Changelog''"
    by (simp add: has_title_def newline_def is_title_def startsWith_def)
  have h4: "\<not> has_title ''notes''" by (rule notes_no_title)
  have h5: "\<not> has_title (generateChangelogSection (createChangelogEntry ''1.0.0'' [?cs] ''2024-01-01''))"
    by (rule section_no_title) (simp_all add: newline_def)
  have a: "has_title ''# Changelog''
           \<or> \<not> has_title (generateChangelogSection (createChangelogEntry ''1.0.0'' [] ''2024-01-01''))"
    using t by (rule disjI1)
  have b: "has_title ''notes''
           \<or> \<not> has_title (generateChangelogSection (createChangelogEntry ''1.0.0'' [?cs] ''2024-01-01''))"
    using h5 by (rule disjI2)
  note w1 = addEntry_newest_first [OF a, of "''1.1.0''" "[]" "''2024-02-01''", THEN conjunct1]
  note w2 = addEntry_newest_first [OF b, of "''1.1.0''" "[]" "''2024-02-01''", THEN conjunct1]
  note w3 = addEntry_newest_first [OF b, of "''1.1.0''" "[]" "''2024-02-01''", THEN conjunct2,
      THEN mp, OF h4]
  from t w1 h4 h5 w2 w3 show ?thesis by (intro conjI)
qed

section \<open>The publish pipeline: proofs\<close>

text \<open>
  Claim C6. When the manifest gives the current version, \<open>canPublish\<close> refuses, with the
  reason that this version is already published, whenever the latest tag is \<open>v\<close> followed
  by that version, and allows the publish with no reason whenever the latest tag is anything
  else (or there is no tag).
\<close>

theorem canPublish_gate:
  assumes "getCurrentVersion w = Inr currentVersion"
  shows "(getLatestTag w = Some (''v'' @ currentVersion) \<longrightarrow>
            canPublish w = \<lparr>canPublish_flag = False, reason = Some AlreadyPublished\<rparr>)
       \<and> (getLatestTag w \<noteq> Some (''v'' @ currentVersion) \<longrightarrow>
            canPublish w = \<lparr>canPublish_flag = True, reason = None\<rparr>)"
  using assms by (simp add: canPublish_def)

lemma sample_version: "getCurrentVersion sample_project = Inr ''1.0.0''"
  by (simp add: getCurrentVersion_def sample_project_def)

lemma sample_version_tags: "getCurrentVersion (sample_project\<lparr>tags := ts\<rparr>) = Inr ''1.0.0''"
  by (simp add: getCurrentVersion_def sample_project_def)

theorem canPublish_gate_witness:
  "canPublish (sample_project\<lparr>tags := [''v1.0.0'', ''v0.9.0'']\<rparr>)
     = \<lparr>canPublish_flag = False, reason = Some AlreadyPublished\<rparr>
   \<and> canPublish sample_project = \<lparr>canPublish_flag = True, reason = None\<rparr>"
  using canPublish_gate [OF sample_version]
    canPublish_gate [OF sample_version_tags, of "[''v1.0.0'', ''v0.9.0'']"]
  by (simp add: getLatestTag_def sample_project_def)

lemmas publish_defs =
  publish_def publish_try_def publish_catch_def step_def validate_step_def version_step_def
  build_step_def test_step_def tag_step_def npm_step_def release_step_def
  validatePrePublish_def getCurrentVersion_def checkPackageJson_def checkBuildScript_def
  checkTestScript_def runBuild_def runTests_def createAndPushTag_def tagExists_def createTag_def
  push_def publishToNpm_def publishCommand_def cli_option_def createGitHubRelease_def
  getReleaseUrl_def deleteTag_def truthy_string_def

text \<open>
  Claim C5 says that a dry run performs no mutating stage: no tag is created and nothing is
  pushed. The code does otherwise. On a clean project at version 1.0.0 with no tag
  \<open>v1.0.0\<close>, the default configuration with \<open>dryRun\<close> set creates the tag \<open>v1.0.0\<close>,
  pushes it to the remote, and only then runs \<open>npm publish --dry-run\<close>; the release on the
  hosting platform is the one stage the flag holds back.
\<close>

theorem publish_dry_run_tags:
  "publish (default_config\<lparr>dryRun := True\<rparr>) sample_project
     = (Returned \<lparr>success = True, version = ''1.0.0'', gitTag = Some ''v1.0.0'',
                  npmPublished = Some True, gitPushed = Some True, gitHubReleaseCreated = None,
                  gitHubReleaseUrl = None, errors = []\<rparr>,
        sample_project\<lparr>tags := [''v1.0.0'', ''v0.9.0''], remote_tags := [''v0.9.0'', ''v1.0.0''],
          executed := [NpmRunBuild, NpmTest, GitTag ''v1.0.0'', GitPush True,
                       NpmPublish ''npm publish --dry-run'']\<rparr>)"
  by (simp add: publish_defs default_config_def sample_project_def Let_def)

lemma build_step_passes:
  assumes "skipBuild config \<or> \<not> checkBuildScript w \<or> build_ok w"
  shows "\<exists>log. build_step config res w = (None, res, w\<lparr>executed := executed w @ log\<rparr>)"
proof (cases "skipBuild config \<or> \<not> checkBuildScript w")
  case True
  then have "build_step config res w = (None, res, w\<lparr>executed := executed w @ []\<rparr>)"
    by (auto simp: build_step_def runBuild_def)
  then show ?thesis by blast
next
  case False
  with assms have "build_step config res w = (None, res, w\<lparr>executed := executed w @ [NpmRunBuild]\<rparr>)"
    by (simp add: build_step_def runBuild_def)
  then show ?thesis by blast
qed

lemma test_step_passes:
  assumes "skipTest config \<or> \<not> checkTestScript w \<or> test_ok w"
  shows "\<exists>log. test_step config res w = (None, res, w\<lparr>executed := executed w @ log\<rparr>)"
proof (cases "skipTest config \<or> \<not> checkTestScript w")
  case True
  then have "test_step config res w = (None, res, w\<lparr>executed := executed w @ []\<rparr>)"
    by (auto simp: test_step_def runTests_def)
  then show ?thesis by blast
next
  case False
  with assms have "test_step config res w = (None, res, w\<lparr>executed := executed w @ [NpmTest]\<rparr>)"
    by (simp add: test_step_def runTests_def)
  then show ?thesis by blast
qed

lemma check_scripts_executed [simp]:
  "checkTestScript (w\<lparr>executed := x\<rparr>) = checkTestScript w"
  "checkBuildScript (w\<lparr>executed := x\<rparr>) = checkBuildScript w"
  by (simp_all add: checkTestScript_def checkBuildScript_def)

text \<open>The run up to and including a successful tag-and-push stage.\<close>

lemma publish_reaches_npm:
  assumes val: "validatePrePublish config w = None"
    and ver: "getCurrentVersion w = Inr v"
    and build: "skipBuild config \<or> \<not> checkBuildScript w \<or> build_ok w"
    and test: "skipTest config \<or> \<not> checkTestScript w \<or> test_ok w"
    and tagging: "\<not> skipGitPush config" "\<not> tagExists (''v'' @ v) w" "push_ok w"
  shows "\<exists>log res.
           step (step (step (step
             (validate_step config res0 w) version_step) (build_step config)) (test_step config))
             (tag_step config)
           = (None, res, w\<lparr>tags := (''v'' @ v) # tags w,
                remote_tags := remote_tags w
                   @ filter (\<lambda>t. t \<notin> set (remote_tags w)) ((''v'' @ v) # tags w),
                executed := executed w @ log @ [GitTag (''v'' @ v), GitPush True]\<rparr>)
         \<and> res = res0\<lparr>version := v, gitTag := Some (''v'' @ v), gitPushed := Some True\<rparr>"
proof -
  let ?r1 = "res0\<lparr>version := v\<rparr>"
  have s2: "step (validate_step config res0 w) version_step = (None, ?r1, w)"
    by (simp add: step_def validate_step_def version_step_def val ver)
  obtain l1 where b: "build_step config ?r1 w = (None, ?r1, w\<lparr>executed := executed w @ l1\<rparr>)"
    using build_step_passes [OF build] by blast
  let ?w1 = "w\<lparr>executed := executed w @ l1\<rparr>"
  have "skipTest config \<or> \<not> checkTestScript ?w1 \<or> test_ok ?w1" using test by simp
  from test_step_passes [OF this]
  obtain l2 where t: "test_step config ?r1 ?w1 = (None, ?r1, ?w1\<lparr>executed := executed ?w1 @ l2\<rparr>)"
    by blast
  let ?w2 = "w\<lparr>executed := executed w @ l1 @ l2\<rparr>"
  have s4: "step (step (step (validate_step config res0 w) version_step) (build_step config))
              (test_step config) = (None, ?r1, ?w2)"
    by (simp only: s2) (simp add: step_def b t)
  have tg: "tag_step config ?r1 ?w2
          = (None, ?r1\<lparr>gitTag := Some (''v'' @ v), gitPushed := Some True\<rparr>,
             w\<lparr>tags := (''v'' @ v) # tags w,
               remote_tags := remote_tags w
                  @ filter (\<lambda>t. t \<notin> set (remote_tags w)) ((''v'' @ v) # tags w),
               executed := executed w @ (l1 @ l2) @ [GitTag (''v'' @ v), GitPush True]\<rparr>)"
    using tagging
    by (simp add: tag_step_def createAndPushTag_def tagExists_def createTag_def push_def Let_def)
  have "step (step (step (step
             (validate_step config res0 w) version_step) (build_step config)) (test_step config))
             (tag_step config)
          = (None, res0\<lparr>version := v, gitTag := Some (''v'' @ v), gitPushed := Some True\<rparr>,
             w\<lparr>tags := (''v'' @ v) # tags w,
               remote_tags := remote_tags w
                  @ filter (\<lambda>t. t \<notin> set (remote_tags w)) ((''v'' @ v) # tags w),
               executed := executed w @ (l1 @ l2) @ [GitTag (''v'' @ v), GitPush True]\<rparr>)"
    by (simp only: s4) (simp only: step_def prod.case option.case tg)
  then show ?thesis by blast
qed

lemma publish_rollback_run:
  assumes val: "validatePrePublish config w = None"
    and ver: "getCurrentVersion w = Inr v"
    and build: "skipBuild config \<or> \<not> checkBuildScript w \<or> build_ok w"
    and test: "skipTest config \<or> \<not> checkTestScript w \<or> test_ok w"
    and tagging: "\<not> skipGitPush config" "\<not> tagExists (''v'' @ v) w" "push_ok w"
    and npm: "\<not> skipNpmPublish config" "\<not> npm_ok w"
  shows "\<exists>log.
           publish config w
             = (Thrown NpmPublishFailed
                  \<lparr>success = False, version = v, gitTag = Some (''v'' @ v), npmPublished = None,
                   gitPushed = Some True, gitHubReleaseCreated = None, gitHubReleaseUrl = None,
                   errors = [NpmPublishFailed]\<rparr>,
                w\<lparr>remote_tags :=
                     (if remote_delete_ok w
                      then removeAll (''v'' @ v) (remote_tags w)
                             @ filter (\<lambda>t. t \<notin> set (remote_tags w)) (tags w)
                      else remote_tags w
                             @ filter (\<lambda>t. t \<notin> set (remote_tags w)) ((''v'' @ v) # tags w)),
                   executed := executed w @ log
                     @ [GitTag (''v'' @ v), GitPush True, GitTagDelete (''v'' @ v)]
                     @ (if remote_delete_ok w then [GitPushDelete (''v'' @ v)] else [])\<rparr>)"
proof -
  let ?t = "''v'' @ v"
  let ?res0 = "\<lparr>success = False, version = [], gitTag = None, npmPublished = None,
                gitPushed = None, gitHubReleaseCreated = None, gitHubReleaseUrl = None,
                errors = []\<rparr>"
  from publish_reaches_npm [OF val ver build test tagging, of ?res0]
  obtain log where r: "step (step (step (step
             (validate_step config ?res0 w) version_step) (build_step config)) (test_step config))
             (tag_step config)
           = (None, ?res0\<lparr>version := v, gitTag := Some ?t, gitPushed := Some True\<rparr>,
              w\<lparr>tags := ?t # tags w,
                remote_tags := remote_tags w @ filter (\<lambda>t. t \<notin> set (remote_tags w)) (?t # tags w),
                executed := executed w @ log @ [GitTag ?t, GitPush True]\<rparr>)"
    by blast
  have nt: "?t \<notin> set (tags w)" using tagging(2) by (simp add: tagExists_def)
  have ra: "removeAll ?t (tags w) = tags w" using nt by simp
  have rr: "removeAll ?t (remote_tags w @ filter (\<lambda>t. t \<notin> set (remote_tags w)) (?t # tags w))
              = removeAll ?t (remote_tags w) @ filter (\<lambda>t. t \<notin> set (remote_tags w)) (tags w)"
  proof -
    have "filter (\<lambda>x. x \<notin> set (remote_tags w) \<and> ?t \<noteq> x) (tags w)
            = filter (\<lambda>t. t \<notin> set (remote_tags w)) (tags w)"
      using nt by (intro filter_cong) auto
    then show ?thesis using nt by (simp add: removeAll_filter_not_eq)
  qed
  have "publish config w
          = (Thrown NpmPublishFailed
                  \<lparr>success = False, version = v, gitTag = Some ?t, npmPublished = None,
                   gitPushed = Some True, gitHubReleaseCreated = None, gitHubReleaseUrl = None,
                   errors = [NpmPublishFailed]\<rparr>,
                w\<lparr>remote_tags :=
                     (if remote_delete_ok w
                      then removeAll ?t (remote_tags w)
                             @ filter (\<lambda>t. t \<notin> set (remote_tags w)) (tags w)
                      else remote_tags w
                             @ filter (\<lambda>t. t \<notin> set (remote_tags w)) (?t # tags w)),
                   executed := executed w @ log
                     @ [GitTag ?t, GitPush True, GitTagDelete ?t]
                     @ (if remote_delete_ok w then [GitPushDelete ?t] else [])\<rparr>)"
    unfolding publish_def publish_try_def r
    using npm nt
    by (simp add: step_def npm_step_def publishToNpm_def publish_catch_def truthy_string_def
        deleteTag_def Let_def ra rr)
  then show ?thesis by blast
qed

text \<open>
  Claim C2. For every run in which validation passes, the version is read, build and test do
  not fail, the tag stage is not skipped and succeeds (the tag did not exist and the push
  goes through), and the registry publish is not skipped and fails: \<open>publish\<close> throws the
  error of the registry publish; the result object has \<open>success\<close> false and that error as
  its only error; the tag is gone from the local repository, whose tags are those from before
  the run, and from the remote when the remote deletion goes through; the commands ran in
  the order tag, push, tag deletion; the changeset store, the registry and the releases are
  untouched.
\<close>

theorem publish_rollback:
  assumes "validatePrePublish config w = None"
    and "getCurrentVersion w = Inr v"
    and "skipBuild config \<or> \<not> checkBuildScript w \<or> build_ok w"
    and "skipTest config \<or> \<not> checkTestScript w \<or> test_ok w"
    and "\<not> skipGitPush config" and "\<not> tagExists (''v'' @ v) w" and "push_ok w"
    and "\<not> skipNpmPublish config" and "\<not> npm_ok w"
  shows "\<exists>res w'. publish config w = (Thrown NpmPublishFailed res, w')
           \<and> \<not> success res \<and> errors res = [NpmPublishFailed] \<and> gitTag res = Some (''v'' @ v)
           \<and> \<not> tagExists (''v'' @ v) w' \<and> tags w' = tags w
           \<and> (remote_delete_ok w \<longrightarrow> ''v'' @ v \<notin> set (remote_tags w'))
           \<and> (\<exists>log. executed w' = executed w @ log
                  @ [GitTag (''v'' @ v), GitPush True, GitTagDelete (''v'' @ v)]
                  @ (if remote_delete_ok w then [GitPushDelete (''v'' @ v)] else []))
           \<and> changeset_store w' = changeset_store w \<and> published w' = published w
           \<and> releases w' = releases w"
proof -
  from publish_rollback_run [OF assms]
  obtain log where p: "publish config w
             = (Thrown NpmPublishFailed
                  \<lparr>success = False, version = v, gitTag = Some (''v'' @ v), npmPublished = None,
                   gitPushed = Some True, gitHubReleaseCreated = None, gitHubReleaseUrl = None,
                   errors = [NpmPublishFailed]\<rparr>,
                w\<lparr>remote_tags :=
                     (if remote_delete_ok w
                      then removeAll (''v'' @ v) (remote_tags w)
                             @ filter (\<lambda>t. t \<notin> set (remote_tags w)) (tags w)
                      else remote_tags w
                             @ filter (\<lambda>t. t \<notin> set (remote_tags w)) ((''v'' @ v) # tags w)),
                   executed := executed w @ log
                     @ [GitTag (''v'' @ v), GitPush True, GitTagDelete (''v'' @ v)]
                     @ (if remote_delete_ok w then [GitPushDelete (''v'' @ v)] else [])\<rparr>)"
    by blast
  have nt: "''v'' @ v \<notin> set (tags w)" using assms(6) by (simp add: tagExists_def)
  show ?thesis
    unfolding p using nt by (simp add: tagExists_def)
qed

theorem publish_rollback_witness:
  "\<exists>res w'. publish default_config (sample_project\<lparr>npm_ok := False\<rparr>)
               = (Thrown NpmPublishFailed res, w')
     \<and> \<not> success res \<and> errors res = [NpmPublishFailed] \<and> gitTag res = Some ''v1.0.0''
     \<and> \<not> tagExists ''v1.0.0'' w' \<and> ''v1.0.0'' \<notin> set (remote_tags w')
     \<and> tags w' = [''v0.9.0''] \<and> changeset_store w' = [] \<and> published w' = [''0.9.0'']"
proof -
  let ?w = "sample_project\<lparr>npm_ok := False\<rparr>"
  have h1: "validatePrePublish default_config ?w = None"
    by (simp add: validatePrePublish_def checkPackageJson_def checkBuildScript_def
        checkTestScript_def sample_project_def default_config_def)
  have h2: "getCurrentVersion ?w = Inr ''1.0.0''"
    by (simp add: getCurrentVersion_def sample_project_def)
  have h3: "skipBuild default_config \<or> \<not> checkBuildScript ?w \<or> build_ok ?w"
    by (simp add: sample_project_def)
  have h4: "skipTest default_config \<or> \<not> checkTestScript ?w \<or> test_ok ?w"
    by (simp add: sample_project_def)
  have h5: "\<not> skipGitPush default_config" by (simp add: default_config_def)
  have h6: "\<not> tagExists (''v'' @ ''1.0.0'') ?w" by (simp add: tagExists_def sample_project_def)
  have h7: "push_ok ?w" by (simp add: sample_project_def)
  have h8: "\<not> skipNpmPublish default_config" by (simp add: default_config_def)
  have h9: "\<not> npm_ok ?w" by simp
  from publish_rollback [OF h1 h2 h3 h4 h5 h6 h7 h8 h9]
  show ?thesis by (simp add: sample_project_def) blast
qed

section \<open>The changeset store: proofs\<close>

lemma file_names_init:
  "file_names (init s)
     = (if ''config.json'' \<in> set (file_names s) then file_names s
        else file_names s @ [''config.json''])"
  by (simp add: init_def writeJsonFile_def file_exists_def file_names_def)

lemma map_of_init: "f \<noteq> ''config.json'' \<Longrightarrow> map_of (init s) f = map_of s f"
  by (auto simp: init_def writeJsonFile_def file_exists_def file_names_def map_add_def
      split: option.splits)

lemma changeset_files_init: "changeset_files (init s) = changeset_files s"
  by (simp add: changeset_files_def file_names_init)

lemma read_changeset_init:
  "f \<noteq> ''config.json'' \<Longrightarrow> read_changeset parseDate (init s) f = read_changeset parseDate s f"
  by (simp add: read_changeset_def readJsonFile_def map_of_init)

lemma changeset_files_not_config: "f \<in> set (changeset_files s) \<Longrightarrow> f \<noteq> ''config.json''"
  by (simp add: changeset_files_def)

lemma endsWith_append: "endsWith (x @ p) p"
  by (simp add: endsWith_def)

lemma changeset_path_json: "endsWith (changeset_path j) ''.json''"
proof (cases "get_field j ''id''")
  case None
  have "endsWith (''undefined'' @ ''.json'') ''.json''" by (rule endsWith_append)
  with None show ?thesis by (simp add: changeset_path_def)
next
  case (Some v)
  have "endsWith (template_string v @ ''.json'') ''.json''" by (rule endsWith_append)
  with Some show ?thesis by (simp add: changeset_path_def)
qed

lemma valid_path:
  assumes "validateChangesetStructure parseDate j f = Inr ()"
  shows "f = changeset_path j"
  using assms unfolding validateChangesetStructure_def
  by (simp split: if_splits option.splits json.splits)

lemma valid_time:
  assumes "validateChangesetStructure parseDate j f = Inr ()"
  shows "\<exists>created t. get_field j ''createdAt'' = Some (JStr created) \<and> parseDate created = Some t"
  using assms unfolding validateChangesetStructure_def
  by (simp split: if_splits option.splits json.splits)

lemma read_changeset_Inr:
  "read_changeset parseDate s f = Inr j \<longleftrightarrow>
     map_of s f = Some (Some j) \<and> validateChangesetStructure parseDate j f = Inr ()"
  by (auto simp: read_changeset_def readJsonFile_def split: option.splits sum.splits)

lemma read_changesets_set:
  "set (fst (read_changesets parseDate s fs))
     = {j. \<exists>f \<in> set fs. read_changeset parseDate s f = Inr j}"
  by (induction fs) (auto split: prod.splits sum.splits)

lemma read_changesets_warnings:
  "(f, e) \<in> set (snd (read_changesets parseDate s fs))
     \<longleftrightarrow> f \<in> set fs \<and> read_changeset parseDate s f = Inl e"
  by (induction fs) (auto split: prod.splits sum.splits)

lemma read_changesets_length:
  "length (fst (read_changesets parseDate s fs)) + length (snd (read_changesets parseDate s fs))
     = length fs"
  by (induction fs) (auto split: prod.splits sum.splits)

lemma read_changesets_paths:
  "map changeset_path (fst (read_changesets parseDate s fs))
     = filter (\<lambda>f. \<exists>j. read_changeset parseDate s f = Inr j) fs"
proof (induction fs)
  case Nil
  then show ?case by simp
next
  case (Cons f fs)
  show ?case
  proof (cases "read_changeset parseDate s f")
    case (Inl e)
    with Cons show ?thesis by (cases "read_changesets parseDate s fs") simp
  next
    case (Inr j)
    then have "validateChangesetStructure parseDate j f = Inr ()"
      by (simp add: read_changeset_Inr)
    then have "changeset_path j = f" using valid_path by blast
    with Cons Inr show ?thesis by (cases "read_changesets parseDate s fs") auto
  qed
qed

lemma getAllChangesets_parts:
  "fst (getAllChangesets parseDate s)
     = sort_key (getTime parseDate) (fst (read_changesets parseDate (init s) (changeset_files s)))"
  "fst (snd (getAllChangesets parseDate s))
     = snd (read_changesets parseDate (init s) (changeset_files s))"
  "snd (snd (getAllChangesets parseDate s)) = init s"
  by (simp_all add: getAllChangesets_def Let_def changeset_files_init split: prod.splits)

lemma in_changeset_files:
  assumes "map_of s f = Some c" and "endsWith f ''.json''" and "f \<noteq> ''config.json''"
  shows "f \<in> set (changeset_files s)"
proof -
  from assms(1) have "(f, c) \<in> set s" by (rule map_of_SomeD)
  then have "f \<in> fst ` set s" by force
  with assms(2,3) show ?thesis by (simp add: changeset_files_def file_names_def)
qed

text \<open>
  What the listing returns, for any date parser: exactly the records that a file other than
  \<open>config.json\<close> holds and that pass \<open>validateChangesetStructure\<close> for that file, in
  the order of the times their \<open>createdAt\<close> parses to; every other candidate file gives a
  warning with its error, and the store is left as \<open>init\<close> made it.
\<close>

lemma getAllChangesets_listing:
  "(\<forall>j. j \<in> set (fst (getAllChangesets parseDate s)) \<longleftrightarrow>
        (\<exists>f. f \<noteq> ''config.json'' \<and> map_of s f = Some (Some j)
            \<and> validateChangesetStructure parseDate j f = Inr ()))
   \<and> sorted_wrt (\<lambda>a b. \<exists>ca cb ta tb.
          get_field a ''createdAt'' = Some (JStr ca) \<and> parseDate ca = Some ta
        \<and> get_field b ''createdAt'' = Some (JStr cb) \<and> parseDate cb = Some tb \<and> ta \<le> tb)
        (fst (getAllChangesets parseDate s))
   \<and> (\<forall>f e. (f, e) \<in> set (fst (snd (getAllChangesets parseDate s))) \<longleftrightarrow>
         f \<in> set (changeset_files s) \<and> read_changeset parseDate s f = Inl e)
   \<and> length (fst (getAllChangesets parseDate s)) + length (fst (snd (getAllChangesets parseDate s)))
       = length (changeset_files s)
   \<and> snd (snd (getAllChangesets parseDate s)) = init s"
proof (intro conjI allI)
  fix j
  show "j \<in> set (fst (getAllChangesets parseDate s)) \<longleftrightarrow>
        (\<exists>f. f \<noteq> ''config.json'' \<and> map_of s f = Some (Some j)
            \<and> validateChangesetStructure parseDate j f = Inr ())"
  proof
    assume "j \<in> set (fst (getAllChangesets parseDate s))"
    then obtain f where f: "f \<in> set (changeset_files s)"
      and r: "read_changeset parseDate (init s) f = Inr j"
      by (auto simp: getAllChangesets_parts read_changesets_set)
    from f have nc: "f \<noteq> ''config.json''" by (rule changeset_files_not_config)
    with r have "read_changeset parseDate s f = Inr j" by (simp add: read_changeset_init)
    with nc show "\<exists>f. f \<noteq> ''config.json'' \<and> map_of s f = Some (Some j)
            \<and> validateChangesetStructure parseDate j f = Inr ()"
      by (auto simp: read_changeset_Inr)
  next
    assume "\<exists>f. f \<noteq> ''config.json'' \<and> map_of s f = Some (Some j)
            \<and> validateChangesetStructure parseDate j f = Inr ()"
    then obtain f where nc: "f \<noteq> ''config.json''" and m: "map_of s f = Some (Some j)"
      and v: "validateChangesetStructure parseDate j f = Inr ()" by blast
    from v have "endsWith f ''.json''" using valid_path changeset_path_json by metis
    with m nc have "f \<in> set (changeset_files s)" by (intro in_changeset_files)
    moreover have "read_changeset parseDate (init s) f = Inr j"
      using nc m v by (simp add: read_changeset_init read_changeset_Inr)
    ultimately show "j \<in> set (fst (getAllChangesets parseDate s))"
      by (auto simp: getAllChangesets_parts read_changesets_set)
  qed
next
  let ?xs = "fst (getAllChangesets parseDate s)"
  have valid: "\<exists>c t. get_field j ''createdAt'' = Some (JStr c) \<and> parseDate c = Some t"
    if "j \<in> set ?xs" for j
  proof -
    from that obtain f where "read_changeset parseDate (init s) f = Inr j"
      by (auto simp: getAllChangesets_parts read_changesets_set)
    then have "validateChangesetStructure parseDate j f = Inr ()"
      by (simp add: read_changeset_Inr)
    then show ?thesis by (rule valid_time)
  qed
  have "sorted (map (getTime parseDate) ?xs)" by (simp add: getAllChangesets_parts)
  then have "sorted_wrt (\<lambda>a b. getTime parseDate a \<le> getTime parseDate b) ?xs"
    by (simp add: sorted_map)
  then show "sorted_wrt (\<lambda>a b. \<exists>ca cb ta tb.
          get_field a ''createdAt'' = Some (JStr ca) \<and> parseDate ca = Some ta
        \<and> get_field b ''createdAt'' = Some (JStr cb) \<and> parseDate cb = Some tb \<and> ta \<le> tb) ?xs"
  proof (rule sorted_wrt_mono_rel [rotated])
    fix a b
    assume a: "a \<in> set ?xs" and b: "b \<in> set ?xs"
      and le: "getTime parseDate a \<le> getTime parseDate b"
    from valid [OF a] obtain ca ta where ca: "get_field a ''createdAt'' = Some (JStr ca)"
      "parseDate ca = Some ta" by blast
    from valid [OF b] obtain cb tb where cb: "get_field b ''createdAt'' = Some (JStr cb)"
      "parseDate cb = Some tb" by blast
    from le ca cb have "ta \<le> tb" by (simp add: getTime_def)
    with ca cb show "\<exists>ca cb ta tb.
          get_field a ''createdAt'' = Some (JStr ca) \<and> parseDate ca = Some ta
        \<and> get_field b ''createdAt'' = Some (JStr cb) \<and> parseDate cb = Some tb \<and> ta \<le> tb"
      by blast
  qed
next
  fix f e
  show "(f, e) \<in> set (fst (snd (getAllChangesets parseDate s))) \<longleftrightarrow>
         f \<in> set (changeset_files s) \<and> read_changeset parseDate s f = Inl e"
    using changeset_files_not_config [of f s]
    by (auto simp: getAllChangesets_parts read_changesets_warnings read_changeset_init)
next
  show "length (fst (getAllChangesets parseDate s))
          + length (fst (snd (getAllChangesets parseDate s))) = length (changeset_files s)"
    by (simp add: getAllChangesets_parts read_changesets_length)
next
  show "snd (snd (getAllChangesets parseDate s)) = init s"
    by (simp add: getAllChangesets_parts)
qed

lemma file_names_filter:
  "file_names (filter (\<lambda>(n, c). n \<noteq> p) s) = filter (\<lambda>n. n \<noteq> p) (file_names s)"
  by (induction s) (auto simp: file_names_def)

lemma unlink_all_ok:
  assumes "distinct (map changeset_path cs)"
    and "set (map changeset_path cs) \<subseteq> set (file_names s)"
  shows "unlink_all cs s = (None, filter (\<lambda>(n, c). n \<notin> set (map changeset_path cs)) s)"
  using assms
proof (induction cs arbitrary: s)
  case Nil
  then show ?case by simp
next
  case (Cons x cs)
  let ?p = "changeset_path x"
  let ?s' = "filter (\<lambda>(n, c). n \<noteq> ?p) s"
  have ex: "file_exists s ?p" using Cons.prems(2) by (simp add: file_exists_def)
  have d: "distinct (map changeset_path cs)" and np: "?p \<notin> set (map changeset_path cs)"
    using Cons.prems(1) by simp_all
  have sub: "set (map changeset_path cs) \<subseteq> set (file_names ?s')"
  proof
    fix q
    assume q: "q \<in> set (map changeset_path cs)"
    with Cons.prems(2) have "q \<in> set (file_names s)" by auto
    moreover from q np have "q \<noteq> ?p" by blast
    ultimately show "q \<in> set (file_names ?s')" by (simp add: file_names_filter)
  qed
  from Cons.IH [OF d sub]
  have "unlink_all cs ?s' = (None, filter (\<lambda>(n, c). n \<notin> set (map changeset_path cs)) ?s')" .
  moreover have "filter (\<lambda>(n, c). n \<notin> set (map changeset_path cs)) ?s'
                   = filter (\<lambda>(n, c). n \<notin> set (map changeset_path (x # cs))) s"
    by (induction s) auto
  ultimately show ?case using ex by (simp add: unlink_def)
qed

lemma distinct_map_sort_key: "distinct (map g (sort_key f xs)) = distinct (map g xs)"
  by (simp add: distinct_map)

lemma distinct_file_names_init: "distinct (file_names s) \<Longrightarrow> distinct (file_names (init s))"
  by (simp add: file_names_init)

lemma changeset_files_subset: "set (changeset_files s) \<subseteq> set (file_names s)"
  by (auto simp: changeset_files_def)

lemma consumed_paths:
  "map changeset_path (fst (getAllChangesets parseDate s))
     = map changeset_path (sort_key (getTime parseDate)
         (fst (read_changesets parseDate (init s) (changeset_files s))))"
  by (simp add: getAllChangesets_parts)

lemma consumed_paths_set:
  "set (map changeset_path (fst (getAllChangesets parseDate s)))
     = {f \<in> set (changeset_files s). \<exists>j. read_changeset parseDate (init s) f = Inr j}"
proof -
  have "set (map changeset_path (fst (getAllChangesets parseDate s)))
          = changeset_path ` set (fst (read_changesets parseDate (init s) (changeset_files s)))"
    by (simp add: getAllChangesets_parts)
  also have "\<dots> = set (map changeset_path
                        (fst (read_changesets parseDate (init s) (changeset_files s))))"
    by simp
  also have "\<dots> = {f \<in> set (changeset_files s). \<exists>j. read_changeset parseDate (init s) f = Inr j}"
    by (simp only: read_changesets_paths set_filter)
  finally show ?thesis .
qed

lemma consumed_paths_distinct:
  assumes "distinct (file_names s)"
  shows "distinct (map changeset_path (fst (getAllChangesets parseDate s)))"
proof -
  have "distinct (changeset_files s)" using assms by (simp add: changeset_files_def)
  then have "distinct (map changeset_path
               (fst (read_changesets parseDate (init s) (changeset_files s))))"
    by (simp only: read_changesets_paths distinct_filter)
  then show ?thesis by (simp only: consumed_paths distinct_map_sort_key)
qed

lemma consumed_entry:
  assumes d: "distinct (file_names s)" and e: "(n, c) \<in> set (init s)"
  shows "n \<in> set (map changeset_path (fst (getAllChangesets parseDate s)))
           \<longleftrightarrow> n \<noteq> ''config.json''
               \<and> (case c of Some j \<Rightarrow> validateChangesetStructure parseDate j n = Inr ()
                   | None \<Rightarrow> False)"
proof -
  have "distinct (map fst (init s))"
    using distinct_file_names_init [OF d] by (simp add: file_names_def)
  with e have m: "map_of (init s) n = Some c" by simp
  show ?thesis
  proof
    assume "n \<in> set (map changeset_path (fst (getAllChangesets parseDate s)))"
    then have "n \<in> {f \<in> set (changeset_files s). \<exists>j. read_changeset parseDate (init s) f = Inr j}"
      by (simp only: consumed_paths_set)
    then have f: "n \<in> set (changeset_files s)"
      and "\<exists>j. read_changeset parseDate (init s) n = Inr j"
      by simp_all
    then obtain j where "read_changeset parseDate (init s) n = Inr j" by blast
    then have "map_of (init s) n = Some (Some j)"
      and "validateChangesetStructure parseDate j n = Inr ()"
      by (simp_all add: read_changeset_Inr)
    with m f show "n \<noteq> ''config.json''
               \<and> (case c of Some j \<Rightarrow> validateChangesetStructure parseDate j n = Inr ()
                   | None \<Rightarrow> False)"
      by (auto dest: changeset_files_not_config)
  next
    assume h: "n \<noteq> ''config.json''
               \<and> (case c of Some j \<Rightarrow> validateChangesetStructure parseDate j n = Inr ()
                   | None \<Rightarrow> False)"
    then obtain j where c: "c = Some j" and v: "validateChangesetStructure parseDate j n = Inr ()"
      by (cases c) auto
    from v have "endsWith n ''.json''" using valid_path changeset_path_json by metis
    with m h have "n \<in> set (changeset_files (init s))" by (intro in_changeset_files) auto
    then have "n \<in> set (changeset_files s)" by (simp add: changeset_files_init)
    moreover have "read_changeset parseDate (init s) n = Inr j"
      using m c v by (simp add: read_changeset_Inr)
    ultimately show "n \<in> set (map changeset_path (fst (getAllChangesets parseDate s)))"
      by (simp only: consumed_paths_set) blast
  qed
qed

text \<open>
  Claim C10. In a directory (file names distinct), \<open>consumeChangesets\<close> does not fail, returns
  the list \<open>getAllChangesets\<close> returns, and leaves the initialised store without exactly the
  entries that are valid records: \<open>config.json\<close> and every entry that is unreadable or fails
  validation stay as they were, in their order.
\<close>

theorem consumeChangesets_exact:
  assumes "distinct (file_names s)"
  shows "consumeChangesets parseDate s
           = (Inr (fst (getAllChangesets parseDate s)),
              filter (\<lambda>(n, c). \<not> (n \<noteq> ''config.json''
                        \<and> (case c of Some j \<Rightarrow> validateChangesetStructure parseDate j n = Inr ()
                            | None \<Rightarrow> False)))
                (init s))"
proof -
  let ?cs = "fst (getAllChangesets parseDate s)"
  have sub: "set (map changeset_path ?cs) \<subseteq> set (file_names (init s))"
    using changeset_files_subset [of "init s"]
    by (simp only: consumed_paths_set changeset_files_init) blast
  have u: "unlink_all ?cs (init s)
             = (None, filter (\<lambda>(n, c). n \<notin> set (map changeset_path ?cs)) (init s))"
    by (rule unlink_all_ok [OF consumed_paths_distinct [OF assms] sub])
  have "filter (\<lambda>(n, c). n \<notin> set (map changeset_path ?cs)) (init s)
          = filter (\<lambda>(n, c). \<not> (n \<noteq> ''config.json''
                        \<and> (case c of Some j \<Rightarrow> validateChangesetStructure parseDate j n = Inr ()
                            | None \<Rightarrow> False)))
              (init s)"
  proof (rule filter_cong [OF refl])
    fix x
    assume x: "x \<in> set (init s)"
    obtain n c where nc: "x = (n, c)" by (cases x)
    from consumed_entry [OF assms, of n c parseDate] x nc
    show "(case x of (n, c) \<Rightarrow> n \<notin> set (map changeset_path ?cs))
            = (case x of (n, c) \<Rightarrow> \<not> (n \<noteq> ''config.json''
                        \<and> (case c of Some j \<Rightarrow> validateChangesetStructure parseDate j n = Inr ()
                            | None \<Rightarrow> False)))"
      by (simp only: nc prod.case)
  qed
  with u have "unlink_all ?cs (init s)
             = (None, filter (\<lambda>(n, c). \<not> (n \<noteq> ''config.json''
                        \<and> (case c of Some j \<Rightarrow> validateChangesetStructure parseDate j n = Inr ()
                            | None \<Rightarrow> False)))
                 (init s))"
    by simp
  then have u': "unlink_all ?cs (init s)
             = (None, filter (\<lambda>(n, c). \<not> (n \<noteq> ''config.json''
                        \<and> (case c of Some j \<Rightarrow> validateChangesetStructure parseDate j n = Inr ()
                            | None \<Rightarrow> False)))
                 (init s))" .
  obtain cs b c where g: "getAllChangesets parseDate s = (cs, b, c)"
    by (cases "getAllChangesets parseDate s") auto
  then have cs: "fst (getAllChangesets parseDate s) = cs" by simp
  from g have c: "c = init s" using getAllChangesets_parts(3) [of parseDate s] by simp
  show ?thesis
    unfolding consumeChangesets_def cs g using u' [unfolded cs] by (simp add: c)
qed

lemma unique_loop_exhausted:
  assumes "a \<le> maxAttempts"
    and "\<forall>k. a \<le> k \<and> k < maxAttempts \<longrightarrow> file_exists s (generateId rnd (3 * k) @ ''.json'')"
  shows "unique_loop rnd s (generateId rnd (3 * a)) a (3 * (a + 1))
           = (generateId rnd (3 * maxAttempts), maxAttempts)"
  using assms
proof (induction "maxAttempts - a" arbitrary: a)
  case 0
  then have "a = maxAttempts" by simp
  then show ?case by (subst unique_loop.simps) simp
next
  case (Suc n)
  then have lt: "a < maxAttempts" by simp
  with Suc.prems have ex: "file_exists s (generateId rnd (3 * a) @ ''.json'')" by simp
  have "unique_loop rnd s (generateId rnd (3 * (a + 1))) (a + 1) (3 * ((a + 1) + 1))
          = (generateId rnd (3 * maxAttempts), maxAttempts)"
    using Suc.hyps(2) Suc.prems lt by (intro Suc.hyps(1)) auto
  with lt ex show ?case by (subst unique_loop.simps) (simp add: algebra_simps)
qed

lemma unique_loop_found:
  assumes "a \<le> k" and "k < maxAttempts"
    and "\<not> file_exists s (generateId rnd (3 * k) @ ''.json'')"
    and "\<forall>j. a \<le> j \<and> j < k \<longrightarrow> file_exists s (generateId rnd (3 * j) @ ''.json'')"
  shows "unique_loop rnd s (generateId rnd (3 * a)) a (3 * (a + 1)) = (generateId rnd (3 * k), k)"
  using assms
proof (induction "k - a" arbitrary: a)
  case 0
  then have "a = k" by simp
  with "0.prems" show ?case by (subst unique_loop.simps) simp
next
  case (Suc n)
  then have lt: "a < k" by simp
  with Suc.prems have ex: "file_exists s (generateId rnd (3 * a) @ ''.json'')" by simp
  have "unique_loop rnd s (generateId rnd (3 * (a + 1))) (a + 1) (3 * ((a + 1) + 1))
          = (generateId rnd (3 * k), k)"
    using Suc.hyps(2) Suc.prems lt by (intro Suc.hyps(1)) auto
  with lt ex Suc.prems(2) show ?case by (subst unique_loop.simps) (simp add: algebra_simps)
qed

lemma generateUniqueId_exhausted:
  assumes "\<forall>k < maxAttempts. file_exists s (generateId rnd (3 * k) @ ''.json'')"
  shows "generateUniqueId rnd s = Inl IdGenerationExhausted"
proof -
  have "unique_loop rnd s (generateId rnd (3 * 0)) 0 (3 * (0 + 1))
          = (generateId rnd (3 * maxAttempts), maxAttempts)"
    using assms by (intro unique_loop_exhausted) auto
  then show ?thesis by (simp add: generateUniqueId_def)
qed

lemma generateUniqueId_found:
  assumes "k < maxAttempts"
    and "\<not> file_exists s (generateId rnd (3 * k) @ ''.json'')"
    and "\<forall>j < k. file_exists s (generateId rnd (3 * j) @ ''.json'')"
  shows "generateUniqueId rnd s = Inr (generateId rnd (3 * k))"
proof -
  have "unique_loop rnd s (generateId rnd (3 * 0)) 0 (3 * (0 + 1)) = (generateId rnd (3 * k), k)"
    using assms by (intro unique_loop_found) auto
  with assms(1) show ?thesis by (simp add: generateUniqueId_def)
qed

lemma createChangeset_exhausted:
  assumes "validateChangesetInput type_name summary_text = Inr ()"
    and "\<forall>k < maxAttempts. file_exists (init s) (generateId rnd (3 * k) @ ''.json'')"
  shows "createChangeset rnd now type_name summary_text s = (Inl IdGenerationExhausted, init s)"
  using assms(1) generateUniqueId_exhausted [OF assms(2)]
  by (simp add: createChangeset_def)

lemma createChangeset_found:
  assumes "validateChangesetInput type_name summary_text = Inr ()"
    and "k < maxAttempts"
    and "\<not> file_exists (init s) (generateId rnd (3 * k) @ ''.json'')"
    and "\<forall>j < k. file_exists (init s) (generateId rnd (3 * j) @ ''.json'')"
  shows "createChangeset rnd now type_name summary_text s
           = (Inr (changeset_json (generateId rnd (3 * k)) type_name (trim summary_text) now),
              init s @ [(generateId rnd (3 * k) @ ''.json'',
                         Some (changeset_json (generateId rnd (3 * k)) type_name
                                 (trim summary_text) now))])"
  using assms(1,3) generateUniqueId_found [OF assms(2-4)]
  by (simp add: createChangeset_def writeJsonFile_def Let_def)

text \<open>
  Claim C9, as amended. For a valid input, \<open>createChangeset\<close> first makes sure the
  configuration record exists (\<open>init\<close>, which changes no existing file). If the first
  50 ids drawn all have a file, it throws the id-generation error and writes no changeset
  record: the store is the initialised one. Otherwise it takes the first drawn id that has no
  file, and the store is the initialised one with the new record appended under that id: no
  existing record is overwritten.
\<close>

theorem createChangeset_unique_id:
  assumes "validateChangesetInput type_name summary_text = Inr ()"
  shows "((\<forall>k < maxAttempts. file_exists (init s) (generateId rnd (3 * k) @ ''.json'')) \<longrightarrow>
            createChangeset rnd now type_name summary_text s = (Inl IdGenerationExhausted, init s))
       \<and> (\<forall>k < maxAttempts.
             \<not> file_exists (init s) (generateId rnd (3 * k) @ ''.json'')
             \<and> (\<forall>j < k. file_exists (init s) (generateId rnd (3 * j) @ ''.json'')) \<longrightarrow>
             createChangeset rnd now type_name summary_text s
               = (Inr (changeset_json (generateId rnd (3 * k)) type_name (trim summary_text) now),
                  init s @ [(generateId rnd (3 * k) @ ''.json'',
                             Some (changeset_json (generateId rnd (3 * k)) type_name
                                     (trim summary_text) now))]))
       \<and> (\<forall>f. file_exists s f \<longrightarrow> map_of (init s) f = map_of s f)
       \<and> file_names (init s)
           = (if file_exists s ''config.json'' then file_names s
              else file_names s @ [''config.json''])"
proof (intro conjI allI impI)
  assume "\<forall>k < maxAttempts. file_exists (init s) (generateId rnd (3 * k) @ ''.json'')"
  then show "createChangeset rnd now type_name summary_text s = (Inl IdGenerationExhausted, init s)"
    by (rule createChangeset_exhausted [OF assms])
next
  fix k
  assume "k < maxAttempts"
    and "\<not> file_exists (init s) (generateId rnd (3 * k) @ ''.json'')
         \<and> (\<forall>j < k. file_exists (init s) (generateId rnd (3 * j) @ ''.json''))"
  then show "createChangeset rnd now type_name summary_text s
               = (Inr (changeset_json (generateId rnd (3 * k)) type_name (trim summary_text) now),
                  init s @ [(generateId rnd (3 * k) @ ''.json'',
                             Some (changeset_json (generateId rnd (3 * k)) type_name
                                     (trim summary_text) now))])"
    using createChangeset_found [OF assms] by blast
next
  fix f
  assume "file_exists s f"
  then show "map_of (init s) f = map_of s f"
  proof (cases "f = ''config.json''")
    case True
    with \<open>file_exists s f\<close> show ?thesis by (simp add: init_def)
  next
    case False
    then show ?thesis by (rule map_of_init)
  qed
next
  show "file_names (init s)
           = (if file_exists s ''config.json'' then file_names s
              else file_names s @ [''config.json''])"
    by (simp add: file_names_init file_exists_def)
qed

lemma letter_not_lead: "CHR ''h'' \<notin> set ws_leads" "CHR ''f'' \<notin> set ws_leads"
  by (simp_all add: ws_leads_def)

lemma sample_record_valid:
  "validateChangesetStructure sample_dates sample_record ''happy-cats-dance.json'' = Inr ()"
  by (simp add: validateChangesetStructure_def sample_record_def changeset_json_def
      has_field_def get_field_def nonblank_string_def trim_nonblank letter_not_lead
      sample_dates_def changeset_path_def)

lemma sample_store_init: "init sample_store = sample_store"
  by (simp add: init_def file_exists_def file_names_def sample_store_def)

lemma more_letters_not_lead: "CHR ''c'' \<notin> set ws_leads" "CHR ''d'' \<notin> set ws_leads"
  by (simp_all add: ws_leads_def)

lemma utc_record_valid:
  "validateChangesetStructure utc_dates utc_record ''calm-owls-sing.json'' = Inr ()"
  by (simp add: validateChangesetStructure_def utc_record_def changeset_json_def
      has_field_def get_field_def nonblank_string_def trim_nonblank more_letters_not_lead
      utc_dates_def changeset_path_def)

lemma sample_record_valid_utc:
  "validateChangesetStructure utc_dates sample_record ''happy-cats-dance.json'' = Inr ()"
  by (simp add: validateChangesetStructure_def sample_record_def changeset_json_def
      has_field_def get_field_def nonblank_string_def trim_nonblank letter_not_lead
      utc_dates_def changeset_path_def)

text \<open>
  Claim C7 says that the listing returns exactly the records with, among other things, a
  valid ISO date. The code does otherwise: \<open>validateChangesetStructure\<close> only asks that
  \<open>new Date(createdAt)\<close> is a valid date. In the store \<open>utc_store\<close> the record
  \<open>calm-owls-sing\<close> has the date \<open>Wed, 03 Jan 2024 00:00:00 GMT\<close>, which is no ISO
  date string and which the date parser reads; the listing returns it without a warning,
  sorted after the record of 2 January.
\<close>

theorem getAllChangesets_non_iso_date:
  "\<not> iso_date_string ''Wed, 03 Jan 2024 00:00:00 GMT''
   \<and> get_field utc_record ''createdAt'' = Some (JStr ''Wed, 03 Jan 2024 00:00:00 GMT'')
   \<and> getAllChangesets utc_dates utc_store = ([sample_record, utc_record], [], utc_store)"
proof -
  have i: "init utc_store = utc_store"
    by (simp add: init_def file_exists_def file_names_def utc_store_def)
  have f: "changeset_files utc_store = [''calm-owls-sing.json'', ''happy-cats-dance.json'']"
    by (simp add: changeset_files_def file_names_def utc_store_def endsWith_def)
  have r1: "read_changeset utc_dates utc_store ''calm-owls-sing.json'' = Inr utc_record"
    by (simp add: read_changeset_Inr utc_record_valid) (simp add: utc_store_def)
  have r2: "read_changeset utc_dates utc_store ''happy-cats-dance.json'' = Inr sample_record"
    by (simp add: read_changeset_Inr sample_record_valid_utc) (simp add: utc_store_def)
  have t1: "getTime utc_dates utc_record = 1704240000000"
    by (simp add: getTime_def utc_record_def changeset_json_def get_field_def utc_dates_def)
  have t2: "getTime utc_dates sample_record = 1704153600000"
    by (simp add: getTime_def sample_record_def changeset_json_def get_field_def utc_dates_def)
  have "getAllChangesets utc_dates utc_store = ([sample_record, utc_record], [], utc_store)"
    by (simp add: getAllChangesets_def i f r1 r2 t1 t2)
  moreover have "\<not> iso_date_string ''Wed, 03 Jan 2024 00:00:00 GMT''"
    by (simp add: iso_date_string_def is_digit_def)
  moreover have "get_field utc_record ''createdAt'' = Some (JStr ''Wed, 03 Jan 2024 00:00:00 GMT'')"
    by (simp add: utc_record_def changeset_json_def get_field_def)
  ultimately show ?thesis by simp
qed

theorem consumeChangesets_exact_witness:
  "distinct (file_names sample_store)
   \<and> consumeChangesets sample_dates sample_store
       = (Inr (fst (getAllChangesets sample_dates sample_store)),
          [(''config.json'', Some config_json), (''broken.json'', None)])"
proof -
  have d: "distinct (file_names sample_store)"
    by (simp add: file_names_def sample_store_def)
  have "filter (\<lambda>(n, c). \<not> (n \<noteq> ''config.json''
                  \<and> (case c of Some j \<Rightarrow> validateChangesetStructure sample_dates j n = Inr ()
                      | None \<Rightarrow> False)))
          sample_store
        = [(''config.json'', Some config_json), (''broken.json'', None)]"
    using sample_record_valid by (simp add: sample_store_def)
  with consumeChangesets_exact [OF d, of sample_dates] d
  show ?thesis by (simp add: sample_store_init)
qed

lemma first_words_id: "generateId first_words pos = ''happy-cats-dance''"
  by (simp add: generateId_def pick_def first_words_def adjectives_def animals_def actions_def)

lemma fix_login_trim: "trim ''fix login'' = ''fix login''"
proof -
  have "trimStart ''fix login'' = ''fix login''"
    by (rule trimStart_no_lead) (rule letter_not_lead)
  moreover have "ws_last ''fix login'' = 0"
    by (simp add: ws_last_def ws1_def ws2_def ws3_def)
  then have "trimEnd ''fix login'' = ''fix login''" by (subst trimEnd.simps) simp
  ultimately show ?thesis by (simp add: trim_def)
qed

lemma fix_login_valid: "validateChangesetInput ''patch'' ''fix login'' = Inr ()"
  by (simp add: validateChangesetInput_def fix_login_trim js_length_def)

text \<open>
  Claim C9 as stated fails in its last words: when the id generation is exhausted on a store
  that has no configuration record, \<open>createChangeset\<close> throws after \<open>init\<close> has written
  that record.
\<close>

theorem createChangeset_writes_config_counterexample:
  "fst (createChangeset first_words ''2024-01-02T00:00:00.000Z'' ''patch'' ''fix login''
          [(''happy-cats-dance.json'', Some sample_record)]) = Inl IdGenerationExhausted
   \<and> snd (createChangeset first_words ''2024-01-02T00:00:00.000Z'' ''patch'' ''fix login''
          [(''happy-cats-dance.json'', Some sample_record)])
       = [(''happy-cats-dance.json'', Some sample_record), (''config.json'', Some config_json)]
   \<and> snd (createChangeset first_words ''2024-01-02T00:00:00.000Z'' ''patch'' ''fix login''
          [(''happy-cats-dance.json'', Some sample_record)])
       \<noteq> [(''happy-cats-dance.json'', Some sample_record)]"
proof -
  let ?s = "[(''happy-cats-dance.json'', Some sample_record)]"
  have i: "init ?s = ?s @ [(''config.json'', Some config_json)]"
    by (simp add: init_def writeJsonFile_def file_exists_def file_names_def)
  have "\<forall>k < maxAttempts. file_exists (init ?s) (generateId first_words (3 * k) @ ''.json'')"
    by (simp add: first_words_id i file_exists_def file_names_def)
  from createChangeset_exhausted [OF fix_login_valid this]
  show ?thesis by (simp add: i)
qed

theorem createChangeset_unique_id_witness:
  "createChangeset first_words ''2024-01-02T00:00:00.000Z'' ''patch'' ''fix login'' sample_store
     = (Inl IdGenerationExhausted, sample_store)
   \<and> createChangeset first_words ''2024-01-02T00:00:00.000Z'' ''patch'' ''fix login'' []
       = (Inr sample_record,
          [(''config.json'', Some config_json), (''happy-cats-dance.json'', Some sample_record)])"
proof -
  have e: "\<forall>k < maxAttempts.
             file_exists (init sample_store) (generateId first_words (3 * k) @ ''.json'')"
    by (simp add: first_words_id sample_store_init)
       (simp add: file_exists_def file_names_def sample_store_def)
  have i: "init [] = [(''config.json'', Some config_json)]"
    by (simp add: init_def writeJsonFile_def file_exists_def file_names_def)
  have z: "(0::nat) < maxAttempts" by (simp add: maxAttempts_def)
  have f: "\<not> file_exists (init []) (generateId first_words (3 * 0) @ ''.json'')
             \<and> (\<forall>j < (0::nat). file_exists (init []) (generateId first_words (3 * j) @ ''.json''))"
    by (simp add: first_words_id i file_exists_def file_names_def)
  from createChangeset_unique_id [OF fix_login_valid, of sample_store first_words
      "''2024-01-02T00:00:00.000Z''"] e
  have a: "createChangeset first_words ''2024-01-02T00:00:00.000Z'' ''patch'' ''fix login''
             sample_store = (Inl IdGenerationExhausted, sample_store)"
    by (simp only: sample_store_init)
  from createChangeset_unique_id [OF fix_login_valid, of "[]" first_words
      "''2024-01-02T00:00:00.000Z''"] z f
  have b: "createChangeset first_words ''2024-01-02T00:00:00.000Z'' ''patch'' ''fix login'' []
             = (Inr (changeset_json (generateId first_words (3 * 0)) ''patch''
                       (trim ''fix login'') ''2024-01-02T00:00:00.000Z''),
                init [] @ [(generateId first_words (3 * 0) @ ''.json'',
                    Some (changeset_json (generateId first_words (3 * 0)) ''patch''
                            (trim ''fix login'') ''2024-01-02T00:00:00.000Z''))])"
    by blast
  from a b show ?thesis
    by (simp add: first_words_id fix_login_trim i sample_record_def)
qed

end
